theory Spec2Isabelle
  imports Main "HOL-Library.Word"
begin

unbundle bit_operations_syntax

section \<open>Data model of \<open>csudoku.c\<close>\<close>

text \<open>
  The decision tree kept in \<open>self->g\<close> is a Python object: \<open>None\<close>, a pair
  \<open>(depth, '+')\<close> or \<open>(depth, '-')\<close> built by \<open>Py_BuildValue("ic", ...)\<close>, or a pair
  \<open>(depth, [children])\<close> built by \<open>Py_BuildValue("iN", ...)\<close>.
\<close>

datatype graph = PyNone | Leaf int char | Node int "graph list"

text \<open>
  The struct \<open>SuDoKu\<close>. Its declaration is in \<open>csudoku.h\<close>, which is not part of the
  sources; the element types of the five arrays are those of the \<open>memcpy\<close> calls of
  \<open>SuDoKu__copy\<close> (\<open>unsigned char\<close> for \<open>o\<close>, \<open>v\<close>, \<open>c\<close>, \<open>q\<close> and
  \<open>unsigned short int\<close> for \<open>p\<close>). The cursors \<open>q_i\<close>, \<open>q_o\<close> and the fill counter
  \<open>n\<close> are naturals here. The pointer \<open>g\<close> is \<open>None\<close> when it is \<open>NULL\<close>.
  The fields carry the prefix \<open>sd_\<close> since one-letter constants would capture the
  variables of every statement.
\<close>

record sudoku =
  sd_o :: "8 word list"
  sd_v :: "8 word list"
  sd_p :: "16 word list"
  sd_c :: "8 word list"
  sd_q :: "8 word list"
  sd_q_i :: nat
  sd_q_o :: nat
  sd_n :: nat
  sd_g :: "graph option"
  sd_e :: bool

text \<open>
  Return codes. \<open>None\<close> is the return value 0; \<open>Contradiction\<close> is -2 with the
  exception \<open>SuDoKu_Contradiction\<close> set; \<open>InternalError\<close> is -1. The three format
  errors are the \<open>ValueError\<close>s of \<open>SuDoKu__from_string\<close>. \<open>Undefined\<close> marks the
  executions that C leaves undefined: an array index outside \<open>0..80\<close> and a shift
  count outside \<open>0..31\<close>. Allocation failures of the Python runtime are not modelled.
\<close>

datatype error = Contradiction | InternalError | InvalidCharacter char
  | NotEnoughData | TooMuchData | Undefined

type_synonym status = "error option"

text \<open>Every array of the struct has 81 elements.\<close>

definition well_formed :: "sudoku \<Rightarrow> bool" where
  "well_formed s \<longleftrightarrow> length (sd_o s) = 81 \<and> length (sd_v s) = 81 \<and> length (sd_p s) = 81
     \<and> length (sd_c s) = 81 \<and> length (sd_q s) = 81"

text \<open>
  Modelled from the spec: the table \<open>SuDoKu__relations\<close> is declared in \<open>csudoku.h\<close>,
  which is not part of the sources. The spec gives, for each of the 81 cells, the 20
  peer cells sharing its row, column or 3x3 box, with row = index/9, column = index%9
  and box = (row/3)*3 + col/3. The peers are listed by ascending index.
\<close>

definition box :: "nat \<Rightarrow> nat" where
  "box i = (i div 9 div 3) * 3 + i mod 9 div 3"

definition peer :: "nat \<Rightarrow> nat \<Rightarrow> bool" where
  "peer i j \<longleftrightarrow> j \<noteq> i \<and> (j div 9 = i div 9 \<or> j mod 9 = i mod 9 \<or> box j = box i)"

definition relations :: "nat \<Rightarrow> nat list" where
  "relations i = filter (peer i) [0..<81]"

text \<open>
  The table written out, for evaluation: each cell with its row, column and box, and the
  peers of each cell. \<open>relations_table\<close> below proves that it is the table defined above.
\<close>

definition rcb :: "nat \<Rightarrow> nat \<times> nat \<times> nat" where
  "rcb j = (j div 9, j mod 9, box j)"

definition peers_of :: "(nat \<times> nat \<times> nat \<times> nat) list \<Rightarrow> nat \<Rightarrow> nat \<times> nat \<times> nat \<Rightarrow> nat list" where
  "peers_of cells i t = map fst (filter (\<lambda>(j, r, c, b).
      j \<noteq> i \<and> (r = fst t \<or> c = fst (snd t) \<or> b = snd (snd t))) cells)"

definition cell_table :: "(nat \<times> nat \<times> nat \<times> nat) list" where
  "cell_table =
    [(0, 0, 0, 0), (1, 0, 1, 0), (2, 0, 2, 0), (3, 0, 3, 1), (4, 0, 4, 1), (5, 0, 5, 1), (6, 0, 6, 2), (7, 0, 7, 2), (8, 0, 8, 2),
     (9, 1, 0, 0), (10, 1, 1, 0), (11, 1, 2, 0), (12, 1, 3, 1), (13, 1, 4, 1), (14, 1, 5, 1), (15, 1, 6, 2), (16, 1, 7, 2), (17, 1, 8, 2),
     (18, 2, 0, 0), (19, 2, 1, 0), (20, 2, 2, 0), (21, 2, 3, 1), (22, 2, 4, 1), (23, 2, 5, 1), (24, 2, 6, 2), (25, 2, 7, 2), (26, 2, 8, 2),
     (27, 3, 0, 3), (28, 3, 1, 3), (29, 3, 2, 3), (30, 3, 3, 4), (31, 3, 4, 4), (32, 3, 5, 4), (33, 3, 6, 5), (34, 3, 7, 5), (35, 3, 8, 5),
     (36, 4, 0, 3), (37, 4, 1, 3), (38, 4, 2, 3), (39, 4, 3, 4), (40, 4, 4, 4), (41, 4, 5, 4), (42, 4, 6, 5), (43, 4, 7, 5), (44, 4, 8, 5),
     (45, 5, 0, 3), (46, 5, 1, 3), (47, 5, 2, 3), (48, 5, 3, 4), (49, 5, 4, 4), (50, 5, 5, 4), (51, 5, 6, 5), (52, 5, 7, 5), (53, 5, 8, 5),
     (54, 6, 0, 6), (55, 6, 1, 6), (56, 6, 2, 6), (57, 6, 3, 7), (58, 6, 4, 7), (59, 6, 5, 7), (60, 6, 6, 8), (61, 6, 7, 8), (62, 6, 8, 8),
     (63, 7, 0, 6), (64, 7, 1, 6), (65, 7, 2, 6), (66, 7, 3, 7), (67, 7, 4, 7), (68, 7, 5, 7), (69, 7, 6, 8), (70, 7, 7, 8), (71, 7, 8, 8),
     (72, 8, 0, 6), (73, 8, 1, 6), (74, 8, 2, 6), (75, 8, 3, 7), (76, 8, 4, 7), (77, 8, 5, 7), (78, 8, 6, 8), (79, 8, 7, 8), (80, 8, 8, 8)]"

definition rel_table :: "nat list list" where
  "rel_table =
    [[1, 2, 3, 4, 5, 6, 7, 8, 9, 10, 11, 18, 19, 20, 27, 36, 45, 54, 63, 72],
     [0, 2, 3, 4, 5, 6, 7, 8, 9, 10, 11, 18, 19, 20, 28, 37, 46, 55, 64, 73],
     [0, 1, 3, 4, 5, 6, 7, 8, 9, 10, 11, 18, 19, 20, 29, 38, 47, 56, 65, 74],
     [0, 1, 2, 4, 5, 6, 7, 8, 12, 13, 14, 21, 22, 23, 30, 39, 48, 57, 66, 75],
     [0, 1, 2, 3, 5, 6, 7, 8, 12, 13, 14, 21, 22, 23, 31, 40, 49, 58, 67, 76],
     [0, 1, 2, 3, 4, 6, 7, 8, 12, 13, 14, 21, 22, 23, 32, 41, 50, 59, 68, 77],
     [0, 1, 2, 3, 4, 5, 7, 8, 15, 16, 17, 24, 25, 26, 33, 42, 51, 60, 69, 78],
     [0, 1, 2, 3, 4, 5, 6, 8, 15, 16, 17, 24, 25, 26, 34, 43, 52, 61, 70, 79],
     [0, 1, 2, 3, 4, 5, 6, 7, 15, 16, 17, 24, 25, 26, 35, 44, 53, 62, 71, 80],
     [0, 1, 2, 10, 11, 12, 13, 14, 15, 16, 17, 18, 19, 20, 27, 36, 45, 54, 63, 72],
     [0, 1, 2, 9, 11, 12, 13, 14, 15, 16, 17, 18, 19, 20, 28, 37, 46, 55, 64, 73],
     [0, 1, 2, 9, 10, 12, 13, 14, 15, 16, 17, 18, 19, 20, 29, 38, 47, 56, 65, 74],
     [3, 4, 5, 9, 10, 11, 13, 14, 15, 16, 17, 21, 22, 23, 30, 39, 48, 57, 66, 75],
     [3, 4, 5, 9, 10, 11, 12, 14, 15, 16, 17, 21, 22, 23, 31, 40, 49, 58, 67, 76],
     [3, 4, 5, 9, 10, 11, 12, 13, 15, 16, 17, 21, 22, 23, 32, 41, 50, 59, 68, 77],
     [6, 7, 8, 9, 10, 11, 12, 13, 14, 16, 17, 24, 25, 26, 33, 42, 51, 60, 69, 78],
     [6, 7, 8, 9, 10, 11, 12, 13, 14, 15, 17, 24, 25, 26, 34, 43, 52, 61, 70, 79],
     [6, 7, 8, 9, 10, 11, 12, 13, 14, 15, 16, 24, 25, 26, 35, 44, 53, 62, 71, 80],
     [0, 1, 2, 9, 10, 11, 19, 20, 21, 22, 23, 24, 25, 26, 27, 36, 45, 54, 63, 72],
     [0, 1, 2, 9, 10, 11, 18, 20, 21, 22, 23, 24, 25, 26, 28, 37, 46, 55, 64, 73],
     [0, 1, 2, 9, 10, 11, 18, 19, 21, 22, 23, 24, 25, 26, 29, 38, 47, 56, 65, 74],
     [3, 4, 5, 12, 13, 14, 18, 19, 20, 22, 23, 24, 25, 26, 30, 39, 48, 57, 66, 75],
     [3, 4, 5, 12, 13, 14, 18, 19, 20, 21, 23, 24, 25, 26, 31, 40, 49, 58, 67, 76],
     [3, 4, 5, 12, 13, 14, 18, 19, 20, 21, 22, 24, 25, 26, 32, 41, 50, 59, 68, 77],
     [6, 7, 8, 15, 16, 17, 18, 19, 20, 21, 22, 23, 25, 26, 33, 42, 51, 60, 69, 78],
     [6, 7, 8, 15, 16, 17, 18, 19, 20, 21, 22, 23, 24, 26, 34, 43, 52, 61, 70, 79],
     [6, 7, 8, 15, 16, 17, 18, 19, 20, 21, 22, 23, 24, 25, 35, 44, 53, 62, 71, 80],
     [0, 9, 18, 28, 29, 30, 31, 32, 33, 34, 35, 36, 37, 38, 45, 46, 47, 54, 63, 72],
     [1, 10, 19, 27, 29, 30, 31, 32, 33, 34, 35, 36, 37, 38, 45, 46, 47, 55, 64, 73],
     [2, 11, 20, 27, 28, 30, 31, 32, 33, 34, 35, 36, 37, 38, 45, 46, 47, 56, 65, 74],
     [3, 12, 21, 27, 28, 29, 31, 32, 33, 34, 35, 39, 40, 41, 48, 49, 50, 57, 66, 75],
     [4, 13, 22, 27, 28, 29, 30, 32, 33, 34, 35, 39, 40, 41, 48, 49, 50, 58, 67, 76],
     [5, 14, 23, 27, 28, 29, 30, 31, 33, 34, 35, 39, 40, 41, 48, 49, 50, 59, 68, 77],
     [6, 15, 24, 27, 28, 29, 30, 31, 32, 34, 35, 42, 43, 44, 51, 52, 53, 60, 69, 78],
     [7, 16, 25, 27, 28, 29, 30, 31, 32, 33, 35, 42, 43, 44, 51, 52, 53, 61, 70, 79],
     [8, 17, 26, 27, 28, 29, 30, 31, 32, 33, 34, 42, 43, 44, 51, 52, 53, 62, 71, 80],
     [0, 9, 18, 27, 28, 29, 37, 38, 39, 40, 41, 42, 43, 44, 45, 46, 47, 54, 63, 72],
     [1, 10, 19, 27, 28, 29, 36, 38, 39, 40, 41, 42, 43, 44, 45, 46, 47, 55, 64, 73],
     [2, 11, 20, 27, 28, 29, 36, 37, 39, 40, 41, 42, 43, 44, 45, 46, 47, 56, 65, 74],
     [3, 12, 21, 30, 31, 32, 36, 37, 38, 40, 41, 42, 43, 44, 48, 49, 50, 57, 66, 75],
     [4, 13, 22, 30, 31, 32, 36, 37, 38, 39, 41, 42, 43, 44, 48, 49, 50, 58, 67, 76],
     [5, 14, 23, 30, 31, 32, 36, 37, 38, 39, 40, 42, 43, 44, 48, 49, 50, 59, 68, 77],
     [6, 15, 24, 33, 34, 35, 36, 37, 38, 39, 40, 41, 43, 44, 51, 52, 53, 60, 69, 78],
     [7, 16, 25, 33, 34, 35, 36, 37, 38, 39, 40, 41, 42, 44, 51, 52, 53, 61, 70, 79],
     [8, 17, 26, 33, 34, 35, 36, 37, 38, 39, 40, 41, 42, 43, 51, 52, 53, 62, 71, 80],
     [0, 9, 18, 27, 28, 29, 36, 37, 38, 46, 47, 48, 49, 50, 51, 52, 53, 54, 63, 72],
     [1, 10, 19, 27, 28, 29, 36, 37, 38, 45, 47, 48, 49, 50, 51, 52, 53, 55, 64, 73],
     [2, 11, 20, 27, 28, 29, 36, 37, 38, 45, 46, 48, 49, 50, 51, 52, 53, 56, 65, 74],
     [3, 12, 21, 30, 31, 32, 39, 40, 41, 45, 46, 47, 49, 50, 51, 52, 53, 57, 66, 75],
     [4, 13, 22, 30, 31, 32, 39, 40, 41, 45, 46, 47, 48, 50, 51, 52, 53, 58, 67, 76],
     [5, 14, 23, 30, 31, 32, 39, 40, 41, 45, 46, 47, 48, 49, 51, 52, 53, 59, 68, 77],
     [6, 15, 24, 33, 34, 35, 42, 43, 44, 45, 46, 47, 48, 49, 50, 52, 53, 60, 69, 78],
     [7, 16, 25, 33, 34, 35, 42, 43, 44, 45, 46, 47, 48, 49, 50, 51, 53, 61, 70, 79],
     [8, 17, 26, 33, 34, 35, 42, 43, 44, 45, 46, 47, 48, 49, 50, 51, 52, 62, 71, 80],
     [0, 9, 18, 27, 36, 45, 55, 56, 57, 58, 59, 60, 61, 62, 63, 64, 65, 72, 73, 74],
     [1, 10, 19, 28, 37, 46, 54, 56, 57, 58, 59, 60, 61, 62, 63, 64, 65, 72, 73, 74],
     [2, 11, 20, 29, 38, 47, 54, 55, 57, 58, 59, 60, 61, 62, 63, 64, 65, 72, 73, 74],
     [3, 12, 21, 30, 39, 48, 54, 55, 56, 58, 59, 60, 61, 62, 66, 67, 68, 75, 76, 77],
     [4, 13, 22, 31, 40, 49, 54, 55, 56, 57, 59, 60, 61, 62, 66, 67, 68, 75, 76, 77],
     [5, 14, 23, 32, 41, 50, 54, 55, 56, 57, 58, 60, 61, 62, 66, 67, 68, 75, 76, 77],
     [6, 15, 24, 33, 42, 51, 54, 55, 56, 57, 58, 59, 61, 62, 69, 70, 71, 78, 79, 80],
     [7, 16, 25, 34, 43, 52, 54, 55, 56, 57, 58, 59, 60, 62, 69, 70, 71, 78, 79, 80],
     [8, 17, 26, 35, 44, 53, 54, 55, 56, 57, 58, 59, 60, 61, 69, 70, 71, 78, 79, 80],
     [0, 9, 18, 27, 36, 45, 54, 55, 56, 64, 65, 66, 67, 68, 69, 70, 71, 72, 73, 74],
     [1, 10, 19, 28, 37, 46, 54, 55, 56, 63, 65, 66, 67, 68, 69, 70, 71, 72, 73, 74],
     [2, 11, 20, 29, 38, 47, 54, 55, 56, 63, 64, 66, 67, 68, 69, 70, 71, 72, 73, 74],
     [3, 12, 21, 30, 39, 48, 57, 58, 59, 63, 64, 65, 67, 68, 69, 70, 71, 75, 76, 77],
     [4, 13, 22, 31, 40, 49, 57, 58, 59, 63, 64, 65, 66, 68, 69, 70, 71, 75, 76, 77],
     [5, 14, 23, 32, 41, 50, 57, 58, 59, 63, 64, 65, 66, 67, 69, 70, 71, 75, 76, 77],
     [6, 15, 24, 33, 42, 51, 60, 61, 62, 63, 64, 65, 66, 67, 68, 70, 71, 78, 79, 80],
     [7, 16, 25, 34, 43, 52, 60, 61, 62, 63, 64, 65, 66, 67, 68, 69, 71, 78, 79, 80],
     [8, 17, 26, 35, 44, 53, 60, 61, 62, 63, 64, 65, 66, 67, 68, 69, 70, 78, 79, 80],
     [0, 9, 18, 27, 36, 45, 54, 55, 56, 63, 64, 65, 73, 74, 75, 76, 77, 78, 79, 80],
     [1, 10, 19, 28, 37, 46, 54, 55, 56, 63, 64, 65, 72, 74, 75, 76, 77, 78, 79, 80],
     [2, 11, 20, 29, 38, 47, 54, 55, 56, 63, 64, 65, 72, 73, 75, 76, 77, 78, 79, 80],
     [3, 12, 21, 30, 39, 48, 57, 58, 59, 66, 67, 68, 72, 73, 74, 76, 77, 78, 79, 80],
     [4, 13, 22, 31, 40, 49, 57, 58, 59, 66, 67, 68, 72, 73, 74, 75, 77, 78, 79, 80],
     [5, 14, 23, 32, 41, 50, 57, 58, 59, 66, 67, 68, 72, 73, 74, 75, 76, 78, 79, 80],
     [6, 15, 24, 33, 42, 51, 60, 61, 62, 69, 70, 71, 72, 73, 74, 75, 76, 77, 79, 80],
     [7, 16, 25, 34, 43, 52, 60, 61, 62, 69, 70, 71, 72, 73, 74, 75, 76, 77, 78, 80],
     [8, 17, 26, 35, 44, 53, 60, 61, 62, 69, 70, 71, 72, 73, 74, 75, 76, 77, 78, 79]]"

lemma relations_peers_of: "relations i = peers_of (map (\<lambda>j. (j, rcb j)) [0..<81]) i (rcb i)"
proof -
  have "peer i = (\<lambda>x. x \<noteq> i \<and> (x div 9 = i div 9 \<or> x mod 9 = i mod 9 \<or> box x = box i))"
    by (auto simp: peer_def fun_eq_iff)
  then show ?thesis
    by (simp add: relations_def peers_of_def filter_map comp_def rcb_def)
qed

lemma cell_table: "map (\<lambda>j. (j, rcb j)) [0..<81] = cell_table"
  by code_simp

lemma relations_table: "map relations [0..<81] = rel_table"
proof -
  have "map (\<lambda>(j, t). peers_of cell_table j t) cell_table = rel_table"
    by code_simp
  moreover have "relations = (\<lambda>i. peers_of (map (\<lambda>j. (j, rcb j)) [0..<81]) i (rcb i))"
    by (rule ext) (rule relations_peers_of)
  ultimately show ?thesis
    by (simp add: cell_table [symmetric] comp_def)
qed


lemma relations_nth: "i < 81 \<Longrightarrow> relations i = rel_table ! i"
proof -
  assume "i < 81"
  then have "map relations [0..<81] ! i = relations i" by (simp del: upt_Suc)
  then show ?thesis by (simp add: relations_table)
qed

lemma relations_code [code]:
  "relations i = (if i < 81 then rel_table ! i else filter (peer i) [0..<81])"
  by (simp add: relations_nth) (simp add: relations_def)

lemma relations_length: "i < 81 \<Longrightarrow> length (relations i) = 20"
proof -
  have "list_all (\<lambda>r. length r = 20) rel_table" by code_simp
  moreover assume "i < 81"
  moreover have "length rel_table = 81" by code_simp
  ultimately show ?thesis by (simp add: relations_nth list_all_length)
qed

lemma relations_peer: "j \<in> set (relations i) \<longleftrightarrow> j < 81 \<and> peer i j"
  by (auto simp: relations_def)

lemma peer_sym: "peer i j \<Longrightarrow> peer j i"
  by (auto simp: peer_def)

section \<open>Bit helpers\<close>

text \<open>\<open>(w >> (d - 1)) & 1\<close> for a digit \<open>d\<close> with \<open>1 \<le> d \<le> 32\<close>.\<close>

definition has_digit :: "16 word \<Rightarrow> 8 word \<Rightarrow> bool" where
  "has_digit w d \<longleftrightarrow> bit w (unat d - 1)"

text \<open>\<open>w ^ (1 << (d - 1))\<close>, stored back into an \<open>unsigned short int\<close>.\<close>

definition flip_digit :: "16 word \<Rightarrow> 8 word \<Rightarrow> 16 word" where
  "flip_digit w d = w XOR push_bit (unat d - 1) 1"

text \<open>The shift count \<open>d - 1\<close> is undefined in C outside \<open>0..31\<close>.\<close>

definition bad_shift :: "8 word \<Rightarrow> bool" where
  "bad_shift d \<longleftrightarrow> d = 0 \<or> 32 < d"

text \<open>\<open>ffs\<close> of \<open>strings.h\<close>: one plus the index of the lowest set bit, 0 for 0.\<close>

definition ffs :: "16 word \<Rightarrow> nat" where
  "ffs w = (case filter (bit w) [0..<16] of [] \<Rightarrow> 0 | k # _ \<Rightarrow> k + 1)"

definition popcount :: "16 word \<Rightarrow> nat" where
  "popcount w = length (filter (bit w) [0..<16])"

text \<open>The same functions computed on the integer value of the word.\<close>

lemma has_digit_code [code]: "has_digit w d = bit (uint w) (nat (uint d) - 1)"
  by (auto simp: has_digit_def bit_uint_iff dest: bit_imp_le_length)

lemma flip_digit_code [code]:
  "flip_digit w d = word_of_int (uint w XOR push_bit (nat (uint d) - 1) 1)"
  by (rule bit_eqI) (auto simp: flip_digit_def bit_simps)

lemma ffs_code [code]:
  "ffs w = (case filter (bit (uint w)) [0..<16] of [] \<Rightarrow> 0 | k # _ \<Rightarrow> k + 1)"
proof -
  have "filter (bit (uint w)) [0..<16] = filter (bit w) [0..<16]"
    by (rule filter_cong) (auto simp: bit_uint_iff)
  then show ?thesis by (simp add: ffs_def)
qed

lemma popcount_code [code]: "popcount w = length (filter (bit (uint w)) [0..<16])"
proof -
  have "filter (bit (uint w)) [0..<16] = filter (bit w) [0..<16]"
    by (rule filter_cong) (auto simp: bit_uint_iff)
  then show ?thesis by (simp add: popcount_def)
qed

section \<open>Grid state\<close>

definition reset :: "sudoku \<Rightarrow> sudoku" where
  "reset s = s\<lparr>sd_v := replicate 81 0, sd_p := replicate 81 511, sd_c := replicate 81 9,
     sd_q := replicate 81 (-1), sd_q_i := 0, sd_q_o := 0, sd_n := 0,
     sd_g := (if sd_e s then Some PyNone else sd_g s)\<rparr>"

text \<open>\<open>SuDoKu__copy(self, t)\<close>: the new content of \<open>t\<close>.\<close>

definition copy :: "sudoku \<Rightarrow> sudoku \<Rightarrow> sudoku" where
  "copy s t = t\<lparr>sd_o := sd_o s, sd_v := sd_v s, sd_p := sd_p s, sd_c := sd_c s,
     sd_q := sd_q s, sd_q_i := sd_q_i s, sd_q_o := sd_q_o s, sd_n := sd_n s,
     sd_g := (if sd_e s then Some PyNone else sd_g t), sd_e := sd_e s\<rparr>"

text \<open>The \<open>'-'\<close> leaf recorded at a contradiction when difficulty tracking is on.\<close>

definition fail_leaf :: "sudoku \<Rightarrow> sudoku" where
  "fail_leaf s = (if sd_e s then s\<lparr>sd_g := Some (Leaf (int (sd_n s)) CHR ''-'')\<rparr> else s)"

section \<open>Propagation engine\<close>

definition eliminate :: "sudoku \<Rightarrow> nat \<Rightarrow> 8 word \<Rightarrow> status \<times> sudoku" where
  "eliminate s i d =
    (if 81 \<le> i \<or> bad_shift d then (Some Undefined, s)
     else if has_digit (sd_p s ! i) d then
       (let s1 = s\<lparr>sd_p := (sd_p s)[i := flip_digit (sd_p s ! i) d],
                   sd_c := (sd_c s)[i := sd_c s ! i - 1]\<rparr>
        in if sd_c s1 ! i = 0 then (Some Contradiction, fail_leaf s1)
           else if sd_c s1 ! i = 1 then
             (if 81 \<le> sd_q_i s1 then (Some Undefined, s1)
              else (None, s1\<lparr>sd_q := (sd_q s1)[sd_q_i s1 := of_nat i],
                              sd_q_i := sd_q_i s1 + 1\<rparr>))
           else (None, s1))
     else (None, s))"

text \<open>The loop \<open>for (j = 0; j < 20; j++)\<close> of \<open>SuDoKu__mark\<close> over the peers.\<close>

fun eliminate_peers :: "sudoku \<Rightarrow> nat list \<Rightarrow> 8 word \<Rightarrow> status \<times> sudoku" where
  "eliminate_peers s [] d = (None, s)"
| "eliminate_peers s (j # js) d =
    (case eliminate s j d of
       (Some r, s') \<Rightarrow> (Some r, s')
     | (None, s') \<Rightarrow> eliminate_peers s' js d)"

text \<open>The four assignments of \<open>SuDoKu__mark\<close> that place digit \<open>d\<close> in cell \<open>i\<close>.\<close>

definition assign :: "sudoku \<Rightarrow> nat \<Rightarrow> 8 word \<Rightarrow> sudoku" where
  "assign s i d = s\<lparr>sd_v := (sd_v s)[i := d], sd_n := sd_n s + 1,
     sd_p := (sd_p s)[i := 0], sd_c := (sd_c s)[i := 0]\<rparr>"

text \<open>
  \<open>SuDoKu__mark\<close> and its loop \<open>while (self->q_o < self->q_i)\<close>, which calls
  \<open>SuDoKu__mark\<close> again on the cell it pops.
\<close>

function mark :: "sudoku \<Rightarrow> nat \<Rightarrow> 8 word \<Rightarrow> status \<times> sudoku"
  and drain :: "sudoku \<Rightarrow> status \<times> sudoku" where
  "mark s i d =
    (if 81 \<le> i then (Some Undefined, s)
     else if sd_v s ! i = d then (None, s)
     else if bad_shift d then (Some Undefined, s)
     else if \<not> has_digit (sd_p s ! i) d then (Some Contradiction, fail_leaf s)
     else (case eliminate_peers (assign s i d) (take 20 (relations i)) d of
             (Some r, s') \<Rightarrow> (Some r, s')
           | (None, s') \<Rightarrow> drain s'))"
| "drain s =
    (if sd_q_o s < sd_q_i s then
       (if 81 \<le> sd_q_o s then (Some Undefined, s)
        else let i = unat (sd_q s ! sd_q_o s); s1 = s\<lparr>sd_q_o := sd_q_o s + 1\<rparr>
             in if 81 \<le> i then (Some Undefined, s1)
                else (case mark s1 i (of_nat (ffs (sd_p s1 ! i))) of
                        (Some r, s2) \<Rightarrow> (Some r, s2)
                      | (None, s2) \<Rightarrow> drain s2))
     else (None, s))"
  by pat_completeness auto

lemma eliminate_q_o: "eliminate s i d = (r, s') \<Longrightarrow> sd_q_o s' = sd_q_o s"
  by (auto simp: eliminate_def fail_leaf_def Let_def split: if_splits)

lemma eliminate_peers_q_o: "eliminate_peers s js d = (r, s') \<Longrightarrow> sd_q_o s' = sd_q_o s"
proof (induction js arbitrary: s)
  case Nil
  then show ?case by simp
next
  case (Cons j js)
  obtain r1 s1 where e1: "eliminate s j d = (r1, s1)" by (cases "eliminate s j d")
  show ?case
  proof (cases r1)
    case None
    with Cons e1 have "sd_q_o s' = sd_q_o s1" by simp
    with e1 show ?thesis by (simp add: eliminate_q_o)
  next
    case (Some a)
    with Cons e1 show ?thesis by (auto simp: eliminate_q_o)
  qed
qed

lemma mark_drain_q_o_dom:
  "mark_drain_dom (Inl (s, i, d)) \<Longrightarrow> sd_q_o s \<le> sd_q_o (snd (mark s i d))"
  "mark_drain_dom (Inr s) \<Longrightarrow> sd_q_o s \<le> sd_q_o (snd (drain s))"
proof (induction s i d and s rule: mark_drain.pinduct)
  case (1 s i d)
  let ?s1 = "assign s i d"
  obtain r s' where ep: "eliminate_peers ?s1 (take 20 (relations i)) d = (r, s')"
    by (cases "eliminate_peers ?s1 (take 20 (relations i)) d")
  from eliminate_peers_q_o [OF ep] have q: "sd_q_o s' = sd_q_o s" by (simp add: assign_def)
  show ?case
  proof (cases r)
    case None
    with 1(2) [OF _ _ _ _ ep [symmetric]] q ep 1(1) show ?thesis
      by (auto simp: mark.psimps fail_leaf_def)
  next
    case (Some a)
    with q ep 1(1) show ?thesis
      by (auto simp: mark.psimps fail_leaf_def)
  qed
next
  case (2 s)
  show ?case
    using 2
    by (fastforce simp: drain.psimps Let_def split: prod.splits option.splits)
qed

lemma mark_q_o_dom:
  "mark_drain_dom (Inl (s, i, d)) \<Longrightarrow> (r, s') = mark s i d \<Longrightarrow> sd_q_o s \<le> sd_q_o s'"
  using mark_drain_q_o_dom(1) [of s i d] by (cases "mark s i d") simp

termination mark
proof (relation "measure (\<lambda>x. case x of Inl (s, i, d) \<Rightarrow> 2 * (81 - sd_q_o s) + 1
                               | Inr s \<Rightarrow> 2 * (81 - sd_q_o s))", goal_cases)
  case 1
  show ?case by simp
next
  case 2
  then show ?case by (auto simp: assign_def dest!: eliminate_peers_q_o [OF sym])
next
  case 3
  then show ?case by auto
next
  case (4 s i s1 r s2)
  with mark_q_o_dom [of s1 i "of_nat (ffs (sd_p s1 ! i))" None s2] show ?case by auto
qed

declare mark.simps [simp del] drain.simps [simp del]


subsection \<open>Case analysis and step invariants of the propagation\<close>

lemma mark_cases [consumes 1, case_names range noop shift forbidden cascade drained]:
  assumes "mark s i d = (r, s')"
  obtains "81 \<le> i" "r = Some Undefined" "s' = s"
  | "i < 81" "sd_v s ! i = d" "r = None" "s' = s"
  | "i < 81" "sd_v s ! i \<noteq> d" "bad_shift d" "r = Some Undefined" "s' = s"
  | "i < 81" "sd_v s ! i \<noteq> d" "\<not> bad_shift d" "\<not> has_digit (sd_p s ! i) d"
      "r = Some Contradiction" "s' = fail_leaf s"
  | x where "i < 81" "sd_v s ! i \<noteq> d" "\<not> bad_shift d" "has_digit (sd_p s ! i) d"
      "eliminate_peers (assign s i d) (take 20 (relations i)) d = (Some x, s')" "r = Some x"
  | s1 where "i < 81" "sd_v s ! i \<noteq> d" "\<not> bad_shift d" "has_digit (sd_p s ! i) d"
      "eliminate_peers (assign s i d) (take 20 (relations i)) d = (None, s1)"
      "drain s1 = (r, s')"
  using assms
  by (auto simp: mark.simps split: if_splits prod.splits option.splits)

lemma drain_cases [consumes 1, case_names empty range cell failed continued]:
  assumes "drain s = (r, s')"
  obtains "\<not> sd_q_o s < sd_q_i s" "r = None" "s' = s"
  | "sd_q_o s < sd_q_i s" "81 \<le> sd_q_o s" "r = Some Undefined" "s' = s"
  | "sd_q_o s < sd_q_i s" "sd_q_o s < 81" "81 \<le> unat (sd_q s ! sd_q_o s)"
      "r = Some Undefined" "s' = s\<lparr>sd_q_o := sd_q_o s + 1\<rparr>"
  | x where "sd_q_o s < sd_q_i s" "sd_q_o s < 81" "unat (sd_q s ! sd_q_o s) < 81"
      "mark (s\<lparr>sd_q_o := sd_q_o s + 1\<rparr>) (unat (sd_q s ! sd_q_o s))
         (of_nat (ffs (sd_p s ! unat (sd_q s ! sd_q_o s)))) = (Some x, s')" "r = Some x"
  | s2 where "sd_q_o s < sd_q_i s" "sd_q_o s < 81" "unat (sd_q s ! sd_q_o s) < 81"
      "mark (s\<lparr>sd_q_o := sd_q_o s + 1\<rparr>) (unat (sd_q s ! sd_q_o s))
         (of_nat (ffs (sd_p s ! unat (sd_q s ! sd_q_o s)))) = (None, s2)"
      "drain s2 = (r, s')"
  using assms
  by (subst (asm) drain.simps) (auto simp: Let_def split: if_splits prod.splits option.splits)


lemma eliminate_peers_steps:
  assumes R_refl: "\<And>s. R s s" and R_trans: "\<And>a b c. R a b \<Longrightarrow> R b c \<Longrightarrow> R a c"
    and el: "\<And>s j d r s'. I s \<Longrightarrow> eliminate s j d = (r, s') \<Longrightarrow> I s' \<and> R s s'"
  shows "I s \<Longrightarrow> eliminate_peers s js d = (r, s') \<Longrightarrow> I s' \<and> R s s'"
proof (induction js arbitrary: s)
  case Nil
  then show ?case by (simp add: R_refl)
next
  case (Cons j js)
  obtain r1 s1 where e1: "eliminate s j d = (r1, s1)" by (cases "eliminate s j d")
  from el [OF Cons.prems(1) e1] have 1: "I s1" "R s s1" by simp_all
  show ?case
  proof (cases r1)
    case None
    with Cons.prems(2) e1 have "eliminate_peers s1 js d = (r, s')" by simp
    from Cons.IH [OF 1(1) this] 1(2) show ?thesis by (blast intro: R_trans)
  next
    case (Some a)
    with Cons.prems(2) e1 have "s' = s1" by simp
    with 1 show ?thesis by simp
  qed
qed

lemma mark_drain_steps:
  assumes R_refl: "\<And>s. R s s" and R_trans: "\<And>a b c. R a b \<Longrightarrow> R b c \<Longrightarrow> R a c"
    and el: "\<And>s j d r s'. I s \<Longrightarrow> eliminate s j d = (r, s') \<Longrightarrow> I s' \<and> R s s'"
    and asg: "\<And>s i d. I s \<Longrightarrow> i < 81 \<Longrightarrow> sd_v s ! i \<noteq> d \<Longrightarrow> \<not> bad_shift d
                \<Longrightarrow> has_digit (sd_p s ! i) d \<Longrightarrow> I (assign s i d) \<and> R s (assign s i d)"
    and pop: "\<And>s. I s \<Longrightarrow> sd_q_o s < sd_q_i s \<Longrightarrow> sd_q_o s < 81
                \<Longrightarrow> I (s\<lparr>sd_q_o := sd_q_o s + 1\<rparr>) \<and> R s (s\<lparr>sd_q_o := sd_q_o s + 1\<rparr>)"
    and leaf: "\<And>s. I s \<Longrightarrow> I (fail_leaf s) \<and> R s (fail_leaf s)"
  shows "I s \<Longrightarrow> mark s i d = (r, s') \<Longrightarrow> I s' \<and> R s s'"
    and "I s \<Longrightarrow> drain s = (r, s') \<Longrightarrow> I s' \<and> R s s'"
proof (induction s i d and s arbitrary: r s' and r s' rule: mark_drain.induct)
  case (1 s i d)
  have ep: "I s' \<and> R s s'" if "I s" "eliminate_peers s js d = (r, s')" for s js d r s'
  proof (rule eliminate_peers_steps [where R = R and I = I])
    show "R s s" for s by (rule R_refl)
    show "R a c" if "R a b" "R b c" for a b c using that by (rule R_trans)
    show "I s' \<and> R s s'" if "I s" "eliminate s j d = (r, s')" for s j d r s'
      using that by (rule el)
  qed (use that in simp_all)
  from "1.prems"(2) show ?case
  proof (cases rule: mark_cases)
    case range
    with "1.prems" show ?thesis by (simp add: R_refl)
  next
    case noop
    with "1.prems" show ?thesis by (simp add: R_refl)
  next
    case shift
    with "1.prems" show ?thesis by (simp add: R_refl)
  next
    case forbidden
    with "1.prems" leaf show ?thesis by simp
  next
    case (cascade x)
    from asg [OF "1.prems"(1) cascade(1-4)] have a: "I (assign s i d)" "R s (assign s i d)"
      by simp_all
    from ep [OF a(1) cascade(5)] a(2) show ?thesis by (blast intro: R_trans)
  next
    case (drained s1)
    from asg [OF "1.prems"(1) drained(1-4)] have a: "I (assign s i d)" "R s (assign s i d)"
      by simp_all
    from ep [OF a(1) drained(5)] have b: "I s1" "R (assign s i d) s1" by simp_all
    have "\<not> 81 \<le> i" using drained(1) by simp
    from "1.IH" [OF this drained(2) drained(3) _ drained(5) [symmetric] refl b(1) drained(6)]
      drained(4)
    have "I s' \<and> R s1 s'" by simp
    with a b show ?thesis by (blast intro: R_trans)
  qed
next
  case (2 s)
  let ?s1 = "s\<lparr>sd_q_o := sd_q_o s + 1\<rparr>"
  let ?i = "unat (sd_q s ! sd_q_o s)"
  from "2.prems"(2) show ?case
  proof (cases rule: drain_cases)
    case empty
    with "2.prems" show ?thesis by (simp add: R_refl)
  next
    case range
    with "2.prems" show ?thesis by (simp add: R_refl)
  next
    case cell
    with pop [OF "2.prems"(1)] show ?thesis by simp
  next
    case (failed x)
    from pop [OF "2.prems"(1) failed(1,2)] have a: "I ?s1" "R s ?s1" by simp_all
    have "\<not> 81 \<le> sd_q_o s" "\<not> 81 \<le> ?i" using failed by simp_all
    from "2.IH"(1) [OF failed(1) this(1) refl refl this(2) a(1)] failed(4)
    have "I s' \<and> R ?s1 s'" by simp
    with a show ?thesis by (blast intro: R_trans)
  next
    case (continued s2)
    from pop [OF "2.prems"(1) continued(1,2)] have a: "I ?s1" "R s ?s1" by simp_all
    have n: "\<not> 81 \<le> sd_q_o s" "\<not> 81 \<le> ?i" using continued by simp_all
    from "2.IH"(1) [OF continued(1) n(1) refl refl n(2) a(1)] continued(4)
    have b: "I s2" "R ?s1 s2" by simp_all
    from "2.IH"(2) [OF continued(1) n(1) refl refl n(2) _ refl b(1) continued(5)] continued(4)
    have "I s' \<and> R s2 s'" by simp
    with a b show ?thesis by (blast intro: R_trans)
  qed
qed


section \<open>Search engine\<close>

text \<open>
  \<open>SuDoKu__search_min\<close>. The variable \<open>im\<close> is an \<open>unsigned char\<close>, so its initial
  value \<open>-1\<close> is 255, and the function returns 255 when no cell is selected.
\<close>

definition search_min :: "sudoku \<Rightarrow> nat" where
  "search_min s = unat (fst (fold
     (\<lambda>i (im, cm). if sd_v s ! i = 0 \<and> sd_c s ! i < cm then (of_nat i, sd_c s ! i)
                     else (im, cm))
     [0..<81] ((-1 :: 8 word), (10 :: 8 word))))"

text \<open>\<open>SuDoKu_get2darray\<close>: nine rows of nine integers.\<close>

definition get2darray :: "8 word list \<Rightarrow> int list list" where
  "get2darray a = map (\<lambda>i. map (\<lambda>j. uint (a ! (9 * i + j))) [0..<9]) [0..<9]"

text \<open>
  \<open>SuDoKu__resolve_aux\<close> and its loop \<open>for (n = 1; n < 10; n++)\<close>. The result is the
  return code, \<open>self\<close> (only \<open>self->g\<close> changes) and the list \<open>*res\<close>. The workspace
  \<open>ws\<close> gives the content of each slot before the call: \<open>SuDoKu__copy\<close> overwrites
  every field of the slot \<open>ws[self->n]\<close> except \<open>g\<close>, and \<open>g\<close> is written only when
  \<open>self->e\<close> is set, in which case \<open>SuDoKu__copy\<close> resets it first. The list \<open>sg\<close> is
  the list object that \<open>self->g\<close> refers to.
\<close>

function resolve_aux :: "(nat \<Rightarrow> sudoku) \<Rightarrow> sudoku \<Rightarrow> status \<times> sudoku \<times> int list list list"
  and resolve_loop :: "(nat \<Rightarrow> sudoku) \<Rightarrow> sudoku \<Rightarrow> nat \<Rightarrow> nat \<Rightarrow> graph list
        \<Rightarrow> int list list list \<Rightarrow> status \<times> sudoku \<times> int list list list" where
  "resolve_aux ws s =
    (if sd_n s = 81 then
       (None, (if sd_e s then s\<lparr>sd_g := Some (Leaf (int (sd_n s)) CHR ''+'')\<rparr> else s),
        [get2darray (sd_v s)])
     else if 81 < sd_n s then (Some Undefined, s, [])
     else resolve_loop ws (if sd_e s then s\<lparr>sd_g := Some (Node (int (sd_n s)) [])\<rparr> else s)
            (search_min s) 1 [] [])"
| "resolve_loop ws s i d sg res =
    (if d < 10 then
       (if 81 \<le> i then (Some Undefined, s, res)
        else if has_digit (sd_p s ! i) (of_nat d) then
          (case mark (copy s (ws (sd_n s))) i (of_nat d) of
             (Some r, t) \<Rightarrow>
               (if r = Contradiction then
                  (if sd_e s then
                     (case sd_g t of
                        None \<Rightarrow> (Some InternalError, s, res)
                      | Some gt \<Rightarrow>
                          resolve_loop ws (s\<lparr>sd_g := Some (Node (int (sd_n s)) (sg @ [gt]))\<rparr>)
                            i (d + 1) (sg @ [gt]) res)
                   else resolve_loop ws s i (d + 1) sg res)
                else (Some r, s, res))
           | (None, t) \<Rightarrow>
               (case resolve_aux ws t of
                  (Some r, t', sres) \<Rightarrow> (Some r, s, res)
                | (None, t', sres) \<Rightarrow>
                    (if sd_e s then
                       (case sd_g t' of
                          None \<Rightarrow> (Some InternalError, s, res @ sres)
                        | Some gt \<Rightarrow>
                            resolve_loop ws
                              (s\<lparr>sd_g := Some (Node (int (sd_n s)) (sg @ [gt]))\<rparr>)
                              i (d + 1) (sg @ [gt]) (res @ sres))
                     else resolve_loop ws s i (d + 1) sg (res @ sres))))
        else resolve_loop ws s i (d + 1) sg res)
     else (None, s, res))"
  by pat_completeness auto

lemma eliminate_n: "eliminate s j d = (r, s') \<Longrightarrow> sd_n s' = sd_n s"
  by (auto simp: eliminate_def fail_leaf_def Let_def split: if_splits)

lemma mark_drain_n:
  "mark s i d = (r, s') \<Longrightarrow> sd_n s \<le> sd_n s'"
  "drain s = (r, s') \<Longrightarrow> sd_n s \<le> sd_n s'"
proof -
  have *: "True \<and> sd_n s \<le> sd_n s'" if "True" "mark s i d = (r, s')" for s i d r s'
    using that
    by (rule mark_drain_steps(1) [where I = "\<lambda>_. True" and R = "\<lambda>a b. sd_n a \<le> sd_n b", rotated 6])
      (auto simp: eliminate_n assign_def fail_leaf_def)
  have **: "True \<and> sd_n s \<le> sd_n s'" if "True" "drain s = (r, s')" for s r s'
    using that
    by (rule mark_drain_steps(2) [where I = "\<lambda>_. True" and R = "\<lambda>a b. sd_n a \<le> sd_n b", rotated 6])
      (auto simp: eliminate_n assign_def fail_leaf_def)
  show "mark s i d = (r, s') \<Longrightarrow> sd_n s \<le> sd_n s'" using * by simp
  show "drain s = (r, s') \<Longrightarrow> sd_n s \<le> sd_n s'" using ** by simp
qed

lemma eliminate_peers_n: "eliminate_peers s js d = (r, s') \<Longrightarrow> sd_n s' = sd_n s"
  by (induction js arbitrary: s) (auto simp: eliminate_n split: prod.splits option.splits)

lemma mark_n_less:
  assumes "mark s i d = (None, s')" "sd_v s ! i \<noteq> d"
  shows "sd_n s < sd_n s'"
  using assms(1)
proof (cases rule: mark_cases)
  case (drained s1)
  from eliminate_peers_n [OF drained(5)] mark_drain_n(2) [OF drained(6)]
  show ?thesis by (simp add: assign_def)
qed (use assms in simp_all)

lemma search_min_fold:
  assumes "k \<le> 81"
  shows "(case fold (\<lambda>i (im, cm). if sd_v s ! i = 0 \<and> sd_c s ! i < cm then (of_nat i, sd_c s ! i)
                     else (im, cm)) [0..<k] ((-1 :: 8 word), (10 :: 8 word)) of
          (im, cm) \<Rightarrow> (im = -1 \<and> cm = 10 \<and> (\<forall>i<k. \<not> (sd_v s ! i = 0 \<and> sd_c s ! i < 10)))
             \<or> (unat im < k \<and> sd_v s ! unat im = 0 \<and> cm = sd_c s ! unat im \<and> cm < 10
                 \<and> (\<forall>i<k. sd_v s ! i = 0 \<longrightarrow> cm \<le> sd_c s ! i)))"
  using assms
proof (induction k)
  case 0
  then show ?case by simp
next
  case (Suc k)
  then have k: "k < 81" by simp
  then have u: "unat (of_nat k :: 8 word) = k" by (simp add: unat_of_nat)
  from Suc k show ?case
    apply (simp split: prod.splits)
    apply (auto simp: u less_Suc_eq)
    done
qed

lemma search_min_cases:
  "(search_min s = 255 \<and> (\<forall>i<81. \<not> (sd_v s ! i = 0 \<and> sd_c s ! i < 10)))
   \<or> (search_min s < 81 \<and> sd_v s ! search_min s = 0 \<and> sd_c s ! search_min s < 10
       \<and> (\<forall>i<81. sd_v s ! i = 0 \<longrightarrow> sd_c s ! search_min s \<le> sd_c s ! i))"
proof -
  have m: "unat (-1 :: 8 word) = 255" by (simp add: unsigned_minus_1_eq_mask mask_eq_exp_minus_1)
  show ?thesis
    using search_min_fold [of 81 s]
    by (auto simp: search_min_def m split: prod.splits)
qed

lemma of_nat_digit_neq_0: "0 < d \<Longrightarrow> d < 10 \<Longrightarrow> (of_nat d :: 8 word) \<noteq> 0"
  by (auto simp: word_of_nat_eq_0_iff dest: dvd_imp_le)

lemma copy_sel [simp]:
  "sd_n (copy s t) = sd_n s" "sd_v (copy s t) = sd_v s" "sd_p (copy s t) = sd_p s"
  "sd_c (copy s t) = sd_c s" "sd_q (copy s t) = sd_q s" "sd_q_i (copy s t) = sd_q_i s"
  "sd_q_o (copy s t) = sd_q_o s" "sd_o (copy s t) = sd_o s" "sd_e (copy s t) = sd_e s"
  by (simp_all add: copy_def)

lemma mark_copy_measure:
  assumes "(None, y) = mark (copy s t) i (of_nat d)" "d < 10"
  shows "sd_n s \<le> sd_n y \<and> (sd_v s ! i = 0 \<and> 0 < d \<longrightarrow> sd_n s < sd_n y)"
proof -
  from assms have m: "mark (copy s t) i (of_nat d) = (None, y)" by simp
  from mark_drain_n(1) [OF m] have le: "sd_n s \<le> sd_n y" by simp
  have "sd_n s < sd_n y" if "sd_v s ! i = 0" "0 < d"
  proof -
    from that assms of_nat_digit_neq_0 [of d] have "sd_v (copy s t) ! i \<noteq> of_nat d" by simp
    from mark_n_less [OF m this] show ?thesis by simp
  qed
  with le show ?thesis by simp
qed

termination resolve_aux
proof (relation "inv_image (less_than <*lex*> less_than <*lex*> less_than)
     (\<lambda>x. case x of Inl (ws, s) \<Rightarrow> (81 - sd_n s, 1::nat, 0::nat)
         | Inr (ws, s, i, d, sg, res) \<Rightarrow>
             (81 - sd_n s,
              if (81 \<le> i \<or> sd_v s ! i = 0) \<and> sd_n s < 81 \<and> 0 < d then 0 else 2, 10 - d))",
    goal_cases)
  case 1
  show ?case by (intro wf_inv_image wf_lex_prod wf_less_than)
next
  case (2 ws s)
  with search_min_cases [of s] show ?case by auto
qed (auto dest!: mark_copy_measure)

declare resolve_aux.simps [simp del] resolve_loop.simps [simp del]

text \<open>
  The loop \<open>for (i = 0; i < 81; i++)\<close> that marks the clues, written the same way in
  \<open>SuDoKu_resolve\<close> (step 1) and in \<open>SuDoKu__unique_sol\<close>.
\<close>

fun mark_clues :: "sudoku \<Rightarrow> nat list \<Rightarrow> status \<times> sudoku" where
  "mark_clues s [] = (None, s)"
| "mark_clues s (i # is) =
    (if 0 < sd_o s ! i then
       (case mark s i (sd_o s ! i) of
          (Some r, s') \<Rightarrow> (Some r, s')
        | (None, s') \<Rightarrow> mark_clues s' is)
     else mark_clues s is)"

text \<open>
  \<open>SuDoKu_resolve\<close>. The argument \<open>ws\<close> is the content of the stack array before
  the call; with tracking on, the \<open>g\<close> of each slot is set to \<open>NULL\<close> first. \<open>Inl r\<close>
  is the return value \<open>NULL\<close> with the exception of \<open>r\<close> set.
\<close>

definition resolve :: "(nat \<Rightarrow> sudoku) \<Rightarrow> sudoku \<Rightarrow> (error + int list list list) \<times> sudoku" where
  "resolve ws s =
    (let s0 = reset s;
         ws' = (if sd_e s0 then (\<lambda>k. (ws k)\<lparr>sd_g := None\<rparr>) else ws)
     in case mark_clues s0 [0..<81] of
          (Some r, s1) \<Rightarrow> (Inl r, s1)
        | (None, s1) \<Rightarrow>
            (case resolve_aux ws' s1 of
               (Some r, s2, res) \<Rightarrow> (Inl r, s2)
             | (None, s2, res) \<Rightarrow> (Inr res, s2)))"

section \<open>Uniqueness checker\<close>

text \<open>
  \<open>SuDoKu__unique_sol_aux\<close> and its loop. The result \<open>Inr k\<close> is the returned integer:
  a count, or -2 when several solutions were found.
\<close>

function unique_sol_aux :: "(nat \<Rightarrow> sudoku) \<Rightarrow> sudoku \<Rightarrow> error + int"
  and unique_sol_loop :: "(nat \<Rightarrow> sudoku) \<Rightarrow> sudoku \<Rightarrow> nat \<Rightarrow> nat \<Rightarrow> int \<Rightarrow> error + int" where
  "unique_sol_aux ws s =
    (if sd_n s = 81 then Inr 1
     else if 81 < sd_n s then Inl Undefined
     else unique_sol_loop ws s (search_min s) 1 0)"
| "unique_sol_loop ws s i d count =
    (if d < 10 then
       (if 81 \<le> i then Inl Undefined
        else if has_digit (sd_p s ! i) (of_nat d) then
          (case mark (copy s (ws (sd_n s))) i (of_nat d) of
             (Some r, t) \<Rightarrow>
               (if r = Contradiction then unique_sol_loop ws s i (d + 1) count
                else Inl r)
           | (None, t) \<Rightarrow>
               (case unique_sol_aux ws t of
                  Inl r \<Rightarrow> Inl r
                | Inr scount \<Rightarrow>
                    (if scount < 0 then Inr scount
                     else if 1 < count + scount then Inr (- 2)
                     else unique_sol_loop ws s i (d + 1) (count + scount))))
        else unique_sol_loop ws s i (d + 1) count)
     else Inr count)"
  by pat_completeness auto

termination unique_sol_aux
proof (relation "inv_image (less_than <*lex*> less_than <*lex*> less_than)
     (\<lambda>x. case x of Inl (ws, s) \<Rightarrow> (81 - sd_n s, 1::nat, 0::nat)
         | Inr (ws, s, i, d, count) \<Rightarrow>
             (81 - sd_n s,
              if (81 \<le> i \<or> sd_v s ! i = 0) \<and> sd_n s < 81 \<and> 0 < d then 0 else 2, 10 - d))",
    goal_cases)
  case 1
  show ?case by (intro wf_inv_image wf_lex_prod wf_less_than)
next
  case (2 ws s)
  with search_min_cases [of s] show ?case by auto
qed (auto dest!: mark_copy_measure)

declare unique_sol_aux.simps [simp del] unique_sol_loop.simps [simp del]

text \<open>\<open>SuDoKu__unique_sol\<close>: -1 when a clue cannot be marked.\<close>

definition unique_sol :: "(nat \<Rightarrow> sudoku) \<Rightarrow> sudoku \<Rightarrow> (error + int) \<times> sudoku" where
  "unique_sol ws s =
    (case mark_clues (reset s) [0..<81] of
       (Some r, s1) \<Rightarrow> ((if r = Undefined then Inl Undefined else Inr (- 1)), s1)
     | (None, s1) \<Rightarrow> (unique_sol_aux ws s1, s1))"

section \<open>Difficulty estimator\<close>

text \<open>
  \<open>SuDoKu__graph_len_aux\<close> and \<open>SuDoKu__graph_forks\<close>, each with its loop over the
  children. \<open>PyArg_ParseTuple(g, "iO", ...)\<close> fails on \<open>None\<close>, which gives -1. The C
  \<open>int\<close> is an unbounded integer here.
\<close>

fun graph_len_aux :: "graph \<Rightarrow> int \<Rightarrow> int"
  and graph_len_loop :: "graph list \<Rightarrow> int \<Rightarrow> int \<Rightarrow> int" where
  "graph_len_aux PyNone d = - 1"
| "graph_len_aux (Leaf g0 ch) d = g0 - d"
| "graph_len_aux (Node g0 g1) d = graph_len_loop g1 g0 (g0 - d)"
| "graph_len_loop [] g0 l = l"
| "graph_len_loop (x # xs) g0 l =
    (let sl = graph_len_aux x g0 in if sl < 0 then sl else graph_len_loop xs g0 (l + sl))"

definition graph_len :: "graph \<Rightarrow> int" where
  "graph_len gr = graph_len_aux gr 0"

fun graph_forks :: "graph \<Rightarrow> int"
  and graph_forks_loop :: "graph list \<Rightarrow> int \<Rightarrow> int" where
  "graph_forks PyNone = - 1"
| "graph_forks (Leaf g0 ch) = 0"
| "graph_forks (Node g0 g1) = graph_forks_loop g1 0"
| "graph_forks_loop [] f = f"
| "graph_forks_loop (x # xs) f =
    (let sf = graph_forks x in if sf < 0 then sf else graph_forks_loop xs (f + (sf + 1)))"

text \<open>
  \<open>SuDoKu_estimate\<close>. \<open>Inr None\<close> is the Python value \<open>None\<close>; \<open>Inr (Some (l, f))\<close>
  is the pair \<open>(log(l / 81.0) + 1.0, f)\<close>, of which the first component is a float
  computed from \<open>l\<close> and is kept as \<open>l\<close>.
\<close>

definition estimate :: "sudoku \<Rightarrow> error + (int \<times> int) option" where
  "estimate s =
    (if \<not> sd_e s then Inr None
     else case sd_g s of
       None \<Rightarrow> Inr None
     | Some gr \<Rightarrow>
         (let l = graph_len gr in
          if l < 0 then Inl InternalError
          else let f = graph_forks gr in
               if f < 0 then Inl InternalError else Inr (Some (l, f))))"

section \<open>Parsing\<close>

text \<open>
  The three character tests of \<open>SuDoKu__from_string\<close>:
  \<open>c == '\n' || c == '\r'\<close>, \<open>c >= '1' && c <= '9'\<close> and
  \<open>c == '_' || c == '-' || c == ' ' || c == '.' || c == '0'\<close>.
\<close>

definition newline_char :: "char \<Rightarrow> bool" where
  "newline_char ch \<longleftrightarrow> ch = CHR 0x0A \<or> ch = CHR 0x0D"

definition digit_char :: "char \<Rightarrow> bool" where
  "digit_char ch \<longleftrightarrow> (of_char CHR ''1'' :: nat) \<le> of_char ch \<and> (of_char ch :: nat) \<le> of_char CHR ''9''"

definition blank_char :: "char \<Rightarrow> bool" where
  "blank_char ch \<longleftrightarrow> ch = CHR ''_'' \<or> ch = CHR ''-'' \<or> ch = CHR '' '' \<or> ch = CHR ''.''
     \<or> ch = CHR ''0''"

text \<open>\<open>(unsigned char)c - (unsigned char)'0'\<close>, stored into an \<open>unsigned char\<close>.\<close>

definition digit_value :: "char \<Rightarrow> 8 word" where
  "digit_value ch = of_nat (of_char ch - of_char CHR ''0'')"

text \<open>
  The loop of \<open>SuDoKu__from_string\<close> over the characters still to read. It returns
  the array \<open>self->o\<close>, the counter \<open>i\<close> and whether the loop was left by \<open>break\<close>
  (then \<open>k < l\<close>), or the invalid character with the array written so far.
\<close>

fun from_string_loop :: "8 word list \<Rightarrow> nat \<Rightarrow> string \<Rightarrow> char option \<times> 8 word list \<times> nat \<times> bool" where
  "from_string_loop ov i [] = (None, ov, i, False)"
| "from_string_loop ov i (ch # cs) =
    (if newline_char ch then from_string_loop ov i cs
     else if 81 \<le> i then (None, ov, i, True)
     else if digit_char ch then from_string_loop (ov[i := digit_value ch]) (i + 1) cs
     else if blank_char ch then from_string_loop ov (i + 1) cs
     else (Some ch, ov, i, False))"

definition from_string :: "sudoku \<Rightarrow> string \<Rightarrow> status \<times> sudoku" where
  "from_string s str =
    (case from_string_loop (sd_o s) 0 str of
       (Some ch, ov, i, brk) \<Rightarrow> (Some (InvalidCharacter ch), s\<lparr>sd_o := ov\<rparr>)
     | (None, ov, i, brk) \<Rightarrow>
         (if i < 81 then (Some NotEnoughData, s\<lparr>sd_o := ov\<rparr>)
          else if brk then (Some TooMuchData, s\<lparr>sd_o := ov\<rparr>)
          else (None, s\<lparr>sd_o := ov\<rparr>)))"


section \<open>The words of the spec about puzzle strings\<close>

text \<open>The significant characters of a puzzle string: all but newlines and carriage returns.\<close>

definition significant :: "string \<Rightarrow> string" where
  "significant str = filter (\<lambda>ch. \<not> newline_char ch) str"

definition valid_char :: "char \<Rightarrow> bool" where
  "valid_char ch \<longleftrightarrow> digit_char ch \<or> blank_char ch"

text \<open>The position of the first unrecognised character among the first 81 significant ones.\<close>

definition first_invalid :: "string \<Rightarrow> nat \<Rightarrow> bool" where
  "first_invalid sg j \<longleftrightarrow> j < length sg \<and> j < 81 \<and> \<not> valid_char (sg ! j)
     \<and> (\<forall>k<j. valid_char (sg ! k))"

section \<open>The words of the spec about the decision tree\<close>

text \<open>
  The words of the spec: the number of internal branching nodes with more than zero
  children, summed recursively.
\<close>

fun branching_nodes :: "graph \<Rightarrow> int" where
  "branching_nodes PyNone = 0"
| "branching_nodes (Leaf g0 ch) = 0"
| "branching_nodes (Node g0 g1) = (if g1 = [] then 0 else 1) + sum_list (map branching_nodes g1)"

text \<open>The number of nodes below the root: every child, and every node below a child.\<close>

fun child_nodes :: "graph \<Rightarrow> int" where
  "child_nodes PyNone = 0"
| "child_nodes (Leaf g0 ch) = 0"
| "child_nodes (Node g0 g1) = sum_list (map (\<lambda>x. child_nodes x + 1) g1)"

section \<open>Example grids\<close>

definition empty_grid :: sudoku where
  "empty_grid = \<lparr>sd_o = replicate 81 0, sd_v = replicate 81 0, sd_p = replicate 81 0,
     sd_c = replicate 81 0, sd_q = replicate 81 0, sd_q_i = 0, sd_q_o = 0, sd_n = 0,
     sd_g = None, sd_e = True\<rparr>"

text \<open>
  Thirteen clues that leave the cells 0, 1, 9, 10 and 11 of the first box with the
  candidates 1 and 2 only.
\<close>

definition clash_string :: string where
  "clash_string = ''..3456789...789456...............................................................''"

definition clue_sevens :: sudoku where
  "clue_sevens = empty_grid\<lparr>sd_o := replicate 81 7\<rparr>"

definition clash_grid :: sudoku where
  "clash_grid = snd (from_string empty_grid clash_string)"

definition workspace :: "nat \<Rightarrow> sudoku" where
  "workspace k = empty_grid"

section \<open>The propagation engine: \<open>eliminate\<close>\<close>

lemma digit_shift: "1 \<le> d \<Longrightarrow> d \<le> 9 \<Longrightarrow> \<not> bad_shift (d :: 8 word)"
  by (auto simp: bad_shift_def word_le_nat_alt word_less_nat_alt)

lemma flip_digit_unset: "has_digit w d \<Longrightarrow> flip_digit w d = unset_bit (unat d - 1) w"
  by (rule bit_eqI) (auto simp: flip_digit_def has_digit_def bit_simps)

text \<open>
  C4. For a cell \<open>i\<close> and a digit \<open>d\<close> in 1..9, \<open>eliminate\<close> is a no-op when bit
  \<open>d - 1\<close> of \<open>candidates[i]\<close> is clear. Otherwise it clears that bit and decrements
  \<open>candidateCount[i]\<close>; it fails with the contradiction exactly when the count reaches 0,
  and appends \<open>i\<close> to the forced queue exactly when the count reaches 1.
\<close>

theorem eliminate_spec:
  assumes "well_formed s" and "i < 81" and "1 \<le> d" and "d \<le> 9" and "sd_q_i s < 81"
  shows "if \<not> has_digit (sd_p s ! i) d then eliminate s i d = (None, s)
         else (case eliminate s i d of (r, s') \<Rightarrow>
           sd_p s' = (sd_p s)[i := unset_bit (unat d - 1) (sd_p s ! i)]
           \<and> sd_c s' = (sd_c s)[i := sd_c s ! i - 1]
           \<and> (r = Some Contradiction \<longleftrightarrow> sd_c s ! i - 1 = 0)
           \<and> (r = None \<longleftrightarrow> sd_c s ! i - 1 \<noteq> 0)
           \<and> (if sd_c s ! i - 1 = 1
                then sd_q s' = (sd_q s)[sd_q_i s := of_nat i] \<and> sd_q_i s' = sd_q_i s + 1
                else sd_q s' = sd_q s \<and> sd_q_i s' = sd_q_i s))"
  using assms digit_shift [of d]
  by (auto simp: eliminate_def well_formed_def Let_def fail_leaf_def flip_digit_unset)

theorem eliminate_spec_witness:
  "well_formed (reset empty_grid) \<and> (0::nat) < 81 \<and> (1::8 word) \<le> 1 \<and> (1::8 word) \<le> 9
   \<and> sd_q_i (reset empty_grid) < 81
   \<and> fst (eliminate (reset empty_grid) 0 1) = None
   \<and> sd_c (snd (eliminate (reset empty_grid) 0 1)) ! 0 = 8"
proof -
  have w: "well_formed (reset empty_grid)" by (simp add: well_formed_def reset_def empty_grid_def)
  have q: "sd_q_i (reset empty_grid) < 81" by (simp add: reset_def)
  have h: "has_digit (sd_p (reset empty_grid) ! 0) 1" by code_simp
  have c: "sd_c (reset empty_grid) ! 0 = 9" by code_simp
  from eliminate_spec [OF w _ _ _ q, of 0 1] h c w q show ?thesis
    by (auto simp: well_formed_def split: prod.splits)
qed

section \<open>Parsing\<close>

lemma loop_significant:
  "from_string_loop ov i str = from_string_loop ov i (significant str)"
  by (induction ov i str rule: from_string_loop.induct) (auto simp: significant_def)

lemma not_digit_newline: "digit_char ch \<Longrightarrow> \<not> newline_char ch"
  by (auto simp: digit_char_def newline_char_def)

lemma not_blank_digit: "blank_char ch \<Longrightarrow> \<not> digit_char ch"
  by (auto simp: digit_char_def blank_char_def)

text \<open>The loop on a string without newlines, by the three ways it can end.\<close>

lemma loop_invalid:
  assumes "\<forall>ch \<in> set xs. \<not> newline_char ch" "i \<le> 81"
  shows "from_string_loop ov i xs = (Some ch, ov', i', brk) \<Longrightarrow>
    (\<exists>j. j < length xs \<and> i + j < 81 \<and> xs ! j = ch \<and> \<not> valid_char ch
        \<and> (\<forall>k<j. valid_char (xs ! k)))"
  using assms
proof (induction ov i xs rule: from_string_loop.induct)
  case (1 ov i)
  then show ?case by simp
next
  case (2 ov i c cs)
  from "2.prems" have nn: "\<not> newline_char c" "\<forall>ch \<in> set cs. \<not> newline_char ch" by simp_all
  show ?case
  proof (cases "81 \<le> i")
    case True
    with "2.prems" nn show ?thesis by simp
  next
    case False
    then have i: "i < 81" "i + 1 \<le> 81" by simp_all
    show ?thesis
    proof (cases "valid_char c")
      case True
      have "from_string_loop (if digit_char c then ov[i := digit_value c] else ov) (i + 1) cs
            = (Some ch, ov', i', brk)"
        using "2.prems"(1) nn False True by (auto simp: valid_char_def)
      then obtain j where j: "j < length cs" "i + 1 + j < 81" "cs ! j = ch" "\<not> valid_char ch"
          "\<forall>k<j. valid_char (cs ! k)"
        using "2.IH"(2,3) nn False True i
        by (cases "digit_char c") (auto simp: valid_char_def)
      have "\<forall>k<Suc j. valid_char ((c # cs) ! k)"
        using j(5) True by (auto simp: nth_Cons split: nat.splits)
      with j show ?thesis by (intro exI [of _ "Suc j"]) auto
    next
      case False
      with "2.prems"(1) nn i have "ch = c" by (auto simp: valid_char_def)
      with False i show ?thesis by (intro exI [of _ 0]) auto
    qed
  qed
qed


lemma loop_ok:
  assumes "\<forall>ch \<in> set xs. \<not> newline_char ch" "i \<le> 81" "length ov = 81"
  shows "from_string_loop ov i xs = (None, ov', i', brk) \<Longrightarrow>
    length ov' = 81 \<and> i' = min 81 (i + length xs) \<and> (brk \<longleftrightarrow> 81 < i + length xs)
    \<and> (\<forall>k. k < length xs \<and> i + k < 81 \<longrightarrow> valid_char (xs ! k)
          \<and> ov' ! (i + k) = (if digit_char (xs ! k) then digit_value (xs ! k) else ov ! (i + k)))
    \<and> (\<forall>j<i. ov' ! j = ov ! j) \<and> (\<forall>j. i + length xs \<le> j \<longrightarrow> ov' ! j = ov ! j)"
  using assms
proof (induction ov i xs rule: from_string_loop.induct)
  case (1 ov i)
  then show ?case by auto
next
  case (2 ov i c cs)
  from "2.prems" have nn: "\<not> newline_char c" "\<forall>ch \<in> set cs. \<not> newline_char ch" by simp_all
  show ?case
  proof (cases "81 \<le> i")
    case True
    with "2.prems" nn show ?thesis by auto
  next
    case False
    then have i: "i < 81" "i + 1 \<le> 81" by simp_all
    from "2.prems"(1) nn False have v: "valid_char c"
      by (auto simp: valid_char_def split: if_splits)
    let ?ov1 = "if digit_char c then ov[i := digit_value c] else ov"
    have run: "from_string_loop ?ov1 (i + 1) cs = (None, ov', i', brk)"
      using "2.prems"(1) nn False v by (auto simp: valid_char_def)
    have len1: "length ?ov1 = 81" using "2.prems"(4) by simp
    have ih: "length ov' = 81 \<and> i' = min 81 (i + 1 + length cs) \<and> (brk \<longleftrightarrow> 81 < i + 1 + length cs)
      \<and> (\<forall>k. k < length cs \<and> i + 1 + k < 81 \<longrightarrow> valid_char (cs ! k)
            \<and> ov' ! (i + 1 + k) = (if digit_char (cs ! k) then digit_value (cs ! k)
                                     else ?ov1 ! (i + 1 + k)))
      \<and> (\<forall>j<i + 1. ov' ! j = ?ov1 ! j) \<and> (\<forall>j. i + 1 + length cs \<le> j \<longrightarrow> ov' ! j = ?ov1 ! j)"
    proof (cases "digit_char c")
      case True
      with "2.IH"(2) [OF nn(1) False True _ nn(2) i(2)] run len1 show ?thesis by simp
    next
      case d: False
      with v have b: "blank_char c" by (simp add: valid_char_def)
      with "2.IH"(3) [OF nn(1) False d b _ nn(2) i(2)] run len1 d show ?thesis by simp
    qed
    have at_i: "ov' ! i = (if digit_char c then digit_value c else ov ! i)"
      using ih i "2.prems"(4) by auto
    have cells: "valid_char ((c # cs) ! k)
          \<and> ov' ! (i + k) = (if digit_char ((c # cs) ! k) then digit_value ((c # cs) ! k)
                              else ov ! (i + k))"
      if k: "k < length (c # cs)" "i + k < 81" for k
    proof (cases k)
      case 0
      with v at_i show ?thesis by simp
    next
      case (Suc m)
      with k have "m < length cs" "i + 1 + m < 81" by simp_all
      with ih have "valid_char (cs ! m)
        \<and> ov' ! (i + 1 + m) = (if digit_char (cs ! m) then digit_value (cs ! m)
                                 else ?ov1 ! (i + 1 + m))" by blast
      with Suc show ?thesis by auto
    qed
    have before: "ov' ! j = ov ! j" if "j < i" for j
      using ih that by auto
    have after: "ov' ! j = ov ! j" if "i + length (c # cs) \<le> j" for j
      using ih that by auto
    from ih cells before after show ?thesis by auto
  qed
qed


lemma loop_indep_Nil:
  "(case from_string_loop ov i xs of (r, _, i', brk) \<Rightarrow> (r, i', brk))
   = (case from_string_loop [] i xs of (r, _, i', brk) \<Rightarrow> (r, i', brk))"
  by (induction ov i xs rule: from_string_loop.induct) simp_all

lemma loop_indep:
  "(case from_string_loop ov i xs of (r, _, i', brk) \<Rightarrow> (r, i', brk))
   = (case from_string_loop ov2 i xs of (r, _, i', brk) \<Rightarrow> (r, i', brk))"
  using loop_indep_Nil [of ov i xs] loop_indep_Nil [of ov2 i xs] by simp

lemma significant_no_newline: "\<forall>ch \<in> set (significant str). \<not> newline_char ch"
  by (simp add: significant_def)

lemma first_invalid_unique: "first_invalid sg j \<Longrightarrow> first_invalid sg k \<Longrightarrow> j = k"
proof (rule ccontr)
  assume a: "first_invalid sg j" "first_invalid sg k" and "j \<noteq> k"
  then consider "j < k" | "k < j" by (auto simp: neq_iff)
  then show False
    using a by cases (auto simp: first_invalid_def)
qed

lemma from_string_cases:
  fixes s :: sudoku and str :: string
  defines "sg \<equiv> significant str"
  shows "(\<exists>j. first_invalid sg j \<and> fst (from_string s str) = Some (InvalidCharacter (sg ! j)))
    \<or> ((\<forall>k. k < length sg \<and> k < 81 \<longrightarrow> valid_char (sg ! k))
        \<and> fst (from_string s str) = (if length sg < 81 then Some NotEnoughData
             else if 81 < length sg then Some TooMuchData else None))"
proof -
  obtain r ov' i' brk where run: "from_string_loop (sd_o s) 0 sg = (r, ov', i', brk)"
    by (cases "from_string_loop (sd_o s) 0 sg") auto
  then have fs: "from_string_loop (sd_o s) 0 str = (r, ov', i', brk)"
    using loop_significant [of "sd_o s" 0 str] by (simp add: sg_def)
  note nn = significant_no_newline [of str, folded sg_def]
  show ?thesis
  proof (cases r)
    case (Some ch)
    from loop_invalid [OF nn _ run [unfolded Some]]
    obtain j where "j < length sg" "j < 81" "sg ! j = ch" "\<not> valid_char ch"
      "\<forall>k<j. valid_char (sg ! k)" by auto
    then have "first_invalid sg j" "sg ! j = ch" by (auto simp: first_invalid_def)
    moreover have "fst (from_string s str) = Some (InvalidCharacter ch)"
      using fs Some by (simp add: from_string_def)
    ultimately show ?thesis by blast
  next
    case None
    obtain ov2 where run2: "from_string_loop (replicate 81 0) 0 sg = (None, ov2, i', brk)"
      using loop_indep [of "sd_o s" 0 sg "replicate 81 0"] run None
      by (cases "from_string_loop (replicate 81 0) 0 sg") auto
    from loop_ok [OF nn _ _ run2]
    have *: "i' = min 81 (length sg)" "brk \<longleftrightarrow> 81 < length sg"
      "\<forall>k. k < length sg \<and> k < 81 \<longrightarrow> valid_char (sg ! k)" by auto
    have "fst (from_string s str) = (if length sg < 81 then Some NotEnoughData
             else if 81 < length sg then Some TooMuchData else None)"
      using fs None * by (auto simp: from_string_def)
    with * show ?thesis by blast
  qed
qed

text \<open>
  C9, as amended. \<open>SuDoKu__from_string\<close> succeeds exactly when the significant
  characters (all but newlines and carriage returns) are exactly 81 and each is a digit
  1-9 or a blank. It fails with "not enough data" exactly when there are fewer than 81
  significant characters and all of them are recognised; with "too much data" exactly
  when there are more than 81 and the first 81 are recognised; and with the invalid
  character error exactly when an unrecognised character is among the first 81
  significant characters, the error naming the first such character.
\<close>

theorem from_string_outcome:
  "(fst (from_string s str) = None \<longleftrightarrow>
      length (significant str) = 81 \<and> (\<forall>ch \<in> set (significant str). valid_char ch))
   \<and> (fst (from_string s str) = Some NotEnoughData \<longleftrightarrow>
      length (significant str) < 81 \<and> (\<forall>ch \<in> set (significant str). valid_char ch))
   \<and> (fst (from_string s str) = Some TooMuchData \<longleftrightarrow>
      81 < length (significant str) \<and> (\<forall>ch \<in> set (take 81 (significant str)). valid_char ch))
   \<and> (fst (from_string s str) = Some (InvalidCharacter ch) \<longleftrightarrow>
      (\<exists>j. first_invalid (significant str) j \<and> significant str ! j = ch))"
proof -
  define sg where "sg = significant str"
  define res where "res = fst (from_string s str)"
  have all81: "(\<forall>k. k < length sg \<and> k < 81 \<longrightarrow> valid_char (sg ! k))
      \<longleftrightarrow> (\<forall>ch \<in> set (take 81 sg). valid_char ch)"
  proof
    assume a: "\<forall>k. k < length sg \<and> k < 81 \<longrightarrow> valid_char (sg ! k)"
    show "\<forall>ch \<in> set (take 81 sg). valid_char ch"
    proof
      fix ch assume "ch \<in> set (take 81 sg)"
      then obtain k where "k < length (take 81 sg)" "take 81 sg ! k = ch"
        by (auto simp: in_set_conv_nth)
      with a show "valid_char ch" by auto
    qed
  next
    assume a: "\<forall>ch \<in> set (take 81 sg). valid_char ch"
    show "\<forall>k. k < length sg \<and> k < 81 \<longrightarrow> valid_char (sg ! k)"
    proof (intro allI impI)
      fix k assume k: "k < length sg \<and> k < 81"
      then have "take 81 sg ! k \<in> set (take 81 sg)" by (intro nth_mem) simp
      with a k show "valid_char (sg ! k)" by auto
    qed
  qed
  have whole: "\<forall>ch \<in> set sg. valid_char ch"
    if "length sg \<le> 81" "\<forall>ch \<in> set (take 81 sg). valid_char ch"
  proof -
    from that(1) have "take 81 sg = sg" by simp
    with that(2) show ?thesis by simp
  qed
  have part: "(\<forall>ch \<in> set sg. valid_char ch) \<Longrightarrow> (\<forall>ch \<in> set (take 81 sg). valid_char ch)"
    by (meson in_set_takeD)
  have no_inv: "\<not> first_invalid sg j" if "\<forall>ch \<in> set (take 81 sg). valid_char ch" for j
    using that all81 by (auto simp: first_invalid_def)
  from from_string_cases [of str s]
  consider (bad) j where "first_invalid sg j" "res = Some (InvalidCharacter (sg ! j))"
    | (good) "\<forall>ch \<in> set (take 81 sg). valid_char ch"
        "res = (if length sg < 81 then Some NotEnoughData
                else if 81 < length sg then Some TooMuchData else None)"
    unfolding sg_def res_def using all81 [unfolded sg_def] by blast
  then have "(res = None \<longleftrightarrow> length sg = 81 \<and> (\<forall>ch \<in> set sg. valid_char ch))
   \<and> (res = Some NotEnoughData \<longleftrightarrow> length sg < 81 \<and> (\<forall>ch \<in> set sg. valid_char ch))
   \<and> (res = Some TooMuchData \<longleftrightarrow> 81 < length sg \<and> (\<forall>ch \<in> set (take 81 sg). valid_char ch))
   \<and> (res = Some (InvalidCharacter ch) \<longleftrightarrow> (\<exists>j. first_invalid sg j \<and> sg ! j = ch))"
  proof cases
    case (bad j)
    from bad(1) no_inv have t: "\<not> (\<forall>ch \<in> set (take 81 sg). valid_char ch)" by blast
    with part have a: "\<not> (\<forall>ch \<in> set sg. valid_char ch)" by blast
    have u: "(\<exists>k. first_invalid sg k \<and> sg ! k = ch) \<longleftrightarrow> sg ! j = ch"
      using bad(1) first_invalid_unique by blast
    have 1: "res \<noteq> None" "res \<noteq> Some NotEnoughData" "res \<noteq> Some TooMuchData"
      using bad(2) by simp_all
    have 2: "res = Some (InvalidCharacter ch) \<longleftrightarrow> sg ! j = ch"
      using bad(2) by auto
    from 1 2 t a u show ?thesis by blast
  next
    case good
    from no_inv [OF good(1)] have n: "\<not> (\<exists>j. first_invalid sg j \<and> sg ! j = ch)" by blast
    have i: "res \<noteq> Some (InvalidCharacter ch)" using good(2) by simp
    show ?thesis
    proof (cases "length sg < 81")
      case True
      from good(2) True have "res = Some NotEnoughData" by simp
      moreover from True good(1) have "\<forall>ch \<in> set sg. valid_char ch" by (intro whole) simp_all
      ultimately show ?thesis using True n by simp
    next
      case False
      show ?thesis
      proof (cases "81 < length sg")
        case True
        from good(2) True have "res = Some TooMuchData" by simp
        with True good(1) n show ?thesis by simp
      next
        case f: False
        with False have l: "length sg = 81" by simp
        from good(2) l have "res = None" by simp
        moreover from l good(1) have "\<forall>ch \<in> set sg. valid_char ch" by (intro whole) simp_all
        ultimately show ?thesis using l n by simp
      qed
    qed
  qed
  then show ?thesis unfolding sg_def res_def .
qed


theorem from_string_outcome_witness:
  "fst (from_string empty_grid clash_string) = None
   \<and> length (significant clash_string) = 81
   \<and> list_all valid_char (significant clash_string)"
proof -
  have "fst (from_string empty_grid clash_string) = None" by code_simp
  with from_string_outcome [of empty_grid clash_string] show ?thesis
    by (simp add: list_all_iff)
qed

theorem from_string_short_counterexample:
  "length (significant ''x'') < 81
   \<and> fst (from_string empty_grid ''x'') = Some (InvalidCharacter CHR ''x'')
   \<and> fst (from_string empty_grid ''x'') \<noteq> Some NotEnoughData"
  by code_simp

text \<open>
  C10. On a successful call only the positions of \<open>original\<close> whose character is a
  digit are written: a position whose character is a blank keeps the value it had before
  the call, and no other field of the grid changes.
\<close>

theorem from_string_frame:
  assumes "fst (from_string s str) = None" and "length (sd_o s) = 81"
  shows "snd (from_string s str) = s\<lparr>sd_o := sd_o (snd (from_string s str))\<rparr>
    \<and> (\<forall>j<81. (digit_char (significant str ! j) \<longrightarrow>
                  sd_o (snd (from_string s str)) ! j = digit_value (significant str ! j))
             \<and> (blank_char (significant str ! j) \<longrightarrow>
                  sd_o (snd (from_string s str)) ! j = sd_o s ! j))"
proof -
  let ?sg = "significant str"
  obtain r ov' i' brk where run: "from_string_loop (sd_o s) 0 ?sg = (r, ov', i', brk)"
    by (cases "from_string_loop (sd_o s) 0 ?sg") auto
  then have fs: "from_string_loop (sd_o s) 0 str = (r, ov', i', brk)"
    using loop_significant [of "sd_o s" 0 str] by simp
  from assms(1) fs have r: "r = None" and i': "\<not> i' < 81"
    by (auto simp: from_string_def split: option.splits if_splits)
  from fs r have snd: "snd (from_string s str) = s\<lparr>sd_o := ov'\<rparr>"
    by (auto simp: from_string_def)
  from loop_ok [OF significant_no_newline _ assms(2) run [unfolded r]]
  have *: "i' = min 81 (length ?sg)"
    "\<forall>k. k < length ?sg \<and> k < 81 \<longrightarrow>
       ov' ! k = (if digit_char (?sg ! k) then digit_value (?sg ! k) else sd_o s ! k)"
    by auto
  from * i' have len: "81 \<le> length ?sg" by simp
  have "(digit_char (?sg ! j) \<longrightarrow> ov' ! j = digit_value (?sg ! j))
      \<and> (blank_char (?sg ! j) \<longrightarrow> ov' ! j = sd_o s ! j)" if "j < 81" for j
    using *(2) len that not_blank_digit [of "?sg ! j"] by auto
  with snd show ?thesis by simp
qed

theorem from_string_frame_witness:
  "fst (from_string clue_sevens clash_string) = None \<and> length (sd_o clue_sevens) = 81
   \<and> blank_char (significant clash_string ! 0) \<and> sd_o clue_sevens ! 0 = 7
   \<and> sd_o (snd (from_string clue_sevens clash_string)) ! 0 = 7
   \<and> digit_char (significant clash_string ! 2)
   \<and> sd_o (snd (from_string clue_sevens clash_string)) ! 2 = 3"
proof -
  have 1: "fst (from_string clue_sevens clash_string) = None" by code_simp
  have 2: "length (sd_o clue_sevens) = 81" by code_simp
  have 3: "blank_char (significant clash_string ! 0)" "sd_o clue_sevens ! 0 = 7"
    "digit_char (significant clash_string ! 2)" "digit_value (significant clash_string ! 2) = 3"
    by code_simp+
  from from_string_frame [OF 1 2] 1 2 3 show ?thesis by simp
qed


section \<open>The difficulty estimator\<close>

lemma child_nodes_nonneg: "0 \<le> child_nodes gr"
  by (induction gr) (auto intro!: sum_list_nonneg)

lemma graph_forks_child_nodes:
  "0 \<le> graph_forks gr \<Longrightarrow> graph_forks gr = child_nodes gr"
  "0 \<le> f \<Longrightarrow> 0 \<le> graph_forks_loop grs f \<Longrightarrow>
     graph_forks_loop grs f = f + sum_list (map (\<lambda>x. child_nodes x + 1) grs)"
proof (induction gr and grs f rule: graph_forks_graph_forks_loop.induct)
  case (5 x xs f)
  show ?case
  proof (cases "graph_forks x < 0")
    case True
    with "5.prems" show ?thesis by (simp add: Let_def)
  next
    case False
    with "5.IH"(1) have x: "graph_forks x = child_nodes x" by simp
    from False "5.prems" have "0 \<le> graph_forks_loop xs (f + (graph_forks x + 1))"
      by (simp add: Let_def)
    with "5.IH"(2) [OF refl False] False "5.prems"(1)
    have "graph_forks_loop xs (f + (graph_forks x + 1))
        = f + (graph_forks x + 1) + sum_list (map (\<lambda>x. child_nodes x + 1) xs)" by simp
    with False x show ?thesis by (simp add: Let_def)
  qed
qed simp_all

text \<open>
  C2, as amended. Whenever \<open>SuDoKu_estimate\<close> reports a pair, its forks value is the
  number of nodes of the decision tree below the root: each node counts one for each of
  its children, leaves included, summed over the whole tree.
\<close>

theorem estimate_forks:
  assumes "estimate s = Inr (Some (l, f))"
  shows "\<exists>gr. sd_g s = Some gr \<and> f = child_nodes gr"
proof -
  from assms obtain gr where gr: "sd_g s = Some gr" "0 \<le> graph_forks gr" "f = graph_forks gr"
    by (auto simp: estimate_def Let_def split: if_splits option.splits)
  with graph_forks_child_nodes(1) [of gr] show ?thesis by simp
qed

text \<open>The run of \<open>resolve\<close> on the thirteen clues of \<open>clash_string\<close>.\<close>

lemma clash_run:
  "(case resolve workspace clash_grid of (r, s') \<Rightarrow> (r, sd_g s', sd_e s'))
   = (Inr [], Some (Node 13 [Leaf 15 CHR ''-'', Leaf 15 CHR ''-'']), True)"
  by code_simp

lemma clash_run_sel:
  "fst (resolve workspace clash_grid) = Inr []"
  "sd_g (snd (resolve workspace clash_grid))
     = Some (Node 13 [Leaf 15 CHR ''-'', Leaf 15 CHR ''-''])"
  "sd_e (snd (resolve workspace clash_grid))"
  using clash_run by (simp_all split: prod.splits)

theorem estimate_forks_witness:
  "estimate (snd (resolve workspace clash_grid)) = Inr (Some (17, 2))
   \<and> sd_g (snd (resolve workspace clash_grid)) = Some (Node 13 [Leaf 15 CHR ''-'', Leaf 15 CHR ''-''])
   \<and> child_nodes (Node 13 [Leaf 15 CHR ''-'', Leaf 15 CHR ''-'']) = 2"
proof -
  note g = clash_run_sel(2) and e = clash_run_sel(3)
  from g e have est: "estimate (snd (resolve workspace clash_grid)) = Inr (Some (17, 2))"
    by (simp add: estimate_def graph_len_def)
  from estimate_forks [OF est] g est show ?thesis by auto
qed

theorem estimate_forks_counterexample:
  "fst (resolve workspace clash_grid) = Inr []
   \<and> sd_g (snd (resolve workspace clash_grid)) = Some (Node 13 [Leaf 15 CHR ''-'', Leaf 15 CHR ''-''])
   \<and> estimate (snd (resolve workspace clash_grid)) = Inr (Some (17, 2))
   \<and> branching_nodes (Node 13 [Leaf 15 CHR ''-'', Leaf 15 CHR ''-'']) = 1"
proof -
  note r = clash_run_sel(1) and g = clash_run_sel(2) and e = clash_run_sel(3)
  from g e have est: "estimate (snd (resolve workspace clash_grid)) = Inr (Some (17, 2))"
    by (simp add: estimate_def graph_len_def)
  from g r est show ?thesis by simp
qed



section \<open>The propagation engine: invariants of \<open>mark\<close> and \<open>eliminate\<close>\<close>

subsection \<open>Candidate masks\<close>

lemma popcount_card: "popcount w = card {k. bit w k}"
proof -
  have "{k. bit w k} \<inter> set [0..<16] = {k. bit w k}"
    by (auto dest: bit_imp_le_length)
  moreover have "length (filter (bit w) [0..<16]) = card ({k. bit w k} \<inter> set [0..<16])"
    by (rule distinct_length_filter) simp
  ultimately show ?thesis by (simp only: popcount_def)
qed

lemma has_digit_index: "has_digit w d \<Longrightarrow> unat d - 1 < 16"
  by (auto simp: has_digit_def dest: bit_imp_le_length)

lemma bit_flip_digit:
  "has_digit w d \<Longrightarrow> bit (flip_digit w d) k \<longleftrightarrow> bit w k \<and> k \<noteq> unat d - 1"
  by (auto simp: flip_digit_unset bit_unset_bit_iff)

lemma popcount_flip_digit:
  assumes "has_digit w d"
  shows "popcount (flip_digit w d) = popcount w - 1" and "0 < popcount w"
proof -
  have f: "finite {k. bit w k}"
    by (rule finite_subset [of _ "{..<16}"]) (auto dest: bit_imp_le_length)
  have m: "unat d - 1 \<in> {k. bit w k}" using assms by (simp add: has_digit_def)
  have "{k. bit (flip_digit w d) k} = {k. bit w k} - {unat d - 1}"
    using assms by (auto simp: bit_flip_digit)
  with f m show "popcount (flip_digit w d) = popcount w - 1"
    by (simp add: popcount_card)
  from f m show "0 < popcount w"
    by (auto simp: popcount_card card_gt_0_iff)
qed

lemma popcount_0 [simp]: "popcount 0 = 0"
  by (simp add: popcount_card)

lemma popcount_eq_0: "popcount w = 0 \<longleftrightarrow> w = 0"
proof
  assume "popcount w = 0"
  moreover have "finite {k. bit w k}"
    by (rule finite_subset [of _ "{..<16}"]) (auto dest: bit_imp_le_length)
  ultimately have "{k. bit w k} = {}" by (simp add: popcount_card)
  then show "w = 0" by (auto intro: bit_eqI)
qed simp

text \<open>
  The invariant of every grid state: the arrays have their 81 elements, the count of
  a cell is the number of bits of its mask, masks use the nine low bits only, an assigned
  cell has an empty mask, \<open>n\<close> counts the assigned cells, and the queue cursors are in
  range, the write cursor being bounded by the number of cells with at most one candidate.
\<close>

definition low_cells :: "sudoku \<Rightarrow> nat set" where
  "low_cells s = {i. i < 81 \<and> unat (sd_c s ! i) \<le> 1}"

definition filled_cells :: "sudoku \<Rightarrow> nat set" where
  "filled_cells s = {i. i < 81 \<and> sd_v s ! i \<noteq> 0}"

definition sane :: "sudoku \<Rightarrow> bool" where
  "sane s \<longleftrightarrow> length (sd_v s) = 81 \<and> length (sd_p s) = 81 \<and> length (sd_c s) = 81
     \<and> length (sd_q s) = 81
     \<and> (\<forall>i<81. unat (sd_c s ! i) = popcount (sd_p s ! i))
     \<and> (\<forall>i<81. \<forall>k. bit (sd_p s ! i) k \<longrightarrow> k < 9)
     \<and> (\<forall>i<81. sd_v s ! i \<le> 9)
     \<and> (\<forall>i<81. sd_v s ! i \<noteq> 0 \<longrightarrow> sd_p s ! i = 0)
     \<and> sd_n s = card (filled_cells s)
     \<and> sd_q_o s \<le> sd_q_i s
     \<and> sd_q_i s \<le> card (low_cells s)
     \<and> (\<forall>k. k < sd_q_i s \<longrightarrow> unat (sd_q s ! k) < 81)"

lemma finite_cells [simp]: "finite (low_cells s)" "finite (filled_cells s)"
  by (simp_all add: low_cells_def filled_cells_def)

lemma card_low_cells: "j < 81 \<Longrightarrow> j \<notin> low_cells s \<Longrightarrow> card (low_cells s) < 81"
proof -
  assume j: "j < 81" "j \<notin> low_cells s"
  then have "low_cells s \<subseteq> {..<81} - {j}" by (auto simp: low_cells_def)
  then have "card (low_cells s) \<le> card ({..<81::nat} - {j})" by (intro card_mono) simp_all
  with j show ?thesis by simp
qed

lemma sane_reset: "sane (reset s)"
proof -
  have "popcount 511 = 9" by code_simp
  moreover have "bit (511 :: 16 word) k \<Longrightarrow> k < 9" for k
  proof -
    assume "bit (511 :: 16 word) k"
    then have "bit (mask 9 :: 16 word) k" by (simp add: mask_eq_exp_minus_1)
    then show ?thesis by (simp add: bit_mask_iff)
  qed
  ultimately show ?thesis
    by (auto simp: sane_def reset_def filled_cells_def low_cells_def)
qed

lemma digit_of_has_digit:
  assumes "sane s" "i < 81" "has_digit (sd_p s ! i) d" "\<not> bad_shift d"
  shows "1 \<le> d" "d \<le> 9" "sd_v s ! i = 0"
proof -
  from assms(1,2,3) have "unat d - 1 < 9" by (auto simp: sane_def has_digit_def)
  moreover from assms(4) have "d \<noteq> 0" by (simp add: bad_shift_def)
  then have "unat d \<noteq> 0" by (simp add: unat_eq_0)
  ultimately have "1 \<le> unat d" "unat d \<le> 9" by simp_all
  then show "1 \<le> d" "d \<le> 9" by (simp_all add: word_le_nat_alt)
  from assms(3) have "sd_p s ! i \<noteq> 0" by (auto simp: has_digit_def)
  with assms(1,2) show "sd_v s ! i = 0" by (auto simp: sane_def)
qed

lemma sane_assign:
  assumes "sane s" "i < 81" "\<not> bad_shift d" "has_digit (sd_p s ! i) d"
  shows "sane (assign s i d)"
proof -
  note dg = digit_of_has_digit [OF assms(1,2,4,3)]
  from dg(1) have d0: "d \<noteq> 0" by auto
  have f: "filled_cells (assign s i d) = insert i (filled_cells s)"
    using assms(1,2) d0 by (auto simp: filled_cells_def assign_def sane_def nth_list_update)
  have "i \<notin> filled_cells s" using dg(3) by (simp add: filled_cells_def)
  with f have n: "card (filled_cells (assign s i d)) = sd_n s + 1"
    using assms(1) by (simp add: sane_def)
  have "low_cells s \<subseteq> low_cells (assign s i d)"
    using assms(1,2) by (auto simp: low_cells_def assign_def sane_def nth_list_update)
  then have "card (low_cells s) \<le> card (low_cells (assign s i d))"
    by (intro card_mono) simp_all
  then have q: "sd_q_i (assign s i d) \<le> card (low_cells (assign s i d))"
    using assms(1) by (simp add: sane_def assign_def)
  show ?thesis
    unfolding sane_def
    using assms(1,2) dg(2) n q
    by (auto simp: assign_def sane_def nth_list_update)
qed

lemma sane_fail_leaf: "sane s \<Longrightarrow> sane (fail_leaf s)"
  by (simp add: sane_def fail_leaf_def filled_cells_def low_cells_def)

lemma sane_pop: "sane s \<Longrightarrow> sd_q_o s < sd_q_i s \<Longrightarrow> sane (s\<lparr>sd_q_o := sd_q_o s + 1\<rparr>)"
  by (simp add: sane_def filled_cells_def low_cells_def)

text \<open>The first two assignments of \<open>SuDoKu__eliminate\<close>, when the bit is set.\<close>

lemma sane_strike:
  assumes "sane s" "j < 81" "has_digit (sd_p s ! j) d"
  defines "s1 \<equiv> s\<lparr>sd_p := (sd_p s)[j := flip_digit (sd_p s ! j) d],
                    sd_c := (sd_c s)[j := sd_c s ! j - 1]\<rparr>"
  shows "sane s1" and "unat (sd_c s1 ! j) = unat (sd_c s ! j) - 1"
    and "low_cells s1 = (if unat (sd_c s ! j) \<le> 2 then insert j (low_cells s) else low_cells s)"
    and "0 < unat (sd_c s ! j)"
proof -
  from assms(1,2) have len: "length (sd_p s) = 81" "length (sd_c s) = 81"
    and cnt: "unat (sd_c s ! j) = popcount (sd_p s ! j)"
    by (simp_all add: sane_def)
  note pc = popcount_flip_digit [OF assms(3)]
  from cnt pc(2) show pos: "0 < unat (sd_c s ! j)" by simp
  then have "sd_c s ! j \<noteq> 0" by (auto simp: unat_eq_0)
  then have dec: "unat (sd_c s ! j - 1) = unat (sd_c s ! j) - 1"
    by (simp add: unat_minus_one)
  with len assms(2) show c1: "unat (sd_c s1 ! j) = unat (sd_c s ! j) - 1"
    by (simp add: s1_def)
  have other: "sd_c s1 ! i = sd_c s ! i" "sd_p s1 ! i = sd_p s ! i" if "i \<noteq> j" for i
    using that by (simp_all add: s1_def)
  show low: "low_cells s1
      = (if unat (sd_c s ! j) \<le> 2 then insert j (low_cells s) else low_cells s)"
  proof (rule set_eqI)
    fix i
    show "i \<in> low_cells s1
      \<longleftrightarrow> i \<in> (if unat (sd_c s ! j) \<le> 2 then insert j (low_cells s) else low_cells s)"
      using c1 other [of i] assms(2) pos
      by (cases "i = j") (auto simp: low_cells_def)
  qed
  have "low_cells s \<subseteq> low_cells s1" using low by auto
  then have "card (low_cells s) \<le> card (low_cells s1)" by (intro card_mono) simp_all
  with assms(1) have q: "sd_q_i s1 \<le> card (low_cells s1)"
    by (simp add: sane_def s1_def)
  have f: "filled_cells s1 = filled_cells s" by (simp add: filled_cells_def s1_def)
  have v0: "sd_v s ! j = 0"
  proof (rule ccontr)
    assume "sd_v s ! j \<noteq> 0"
    with assms(1,2) have "sd_p s ! j = 0" by (simp add: sane_def)
    with assms(3) show False by (simp add: has_digit_def)
  qed
  have p1: "sd_p s1 ! j = flip_digit (sd_p s ! j) d" using len assms(2) by (simp add: s1_def)
  have cnt1: "unat (sd_c s1 ! i) = popcount (sd_p s1 ! i)" if "i < 81" for i
    using that c1 p1 pc(1) cnt other [of i] assms(1)
    by (cases "i = j") (auto simp: sane_def)
  have bits1: "k < 9" if "i < 81" "bit (sd_p s1 ! i) k" for i k
    using that p1 other [of i] assms(1,3)
    by (cases "i = j") (auto simp: sane_def bit_flip_digit)
  have emp1: "sd_p s1 ! i = 0" if "i < 81" "sd_v s1 ! i \<noteq> 0" for i
    using that v0 other [of i] assms(1)
    by (cases "i = j") (auto simp: sane_def s1_def)
  show "sane s1"
    unfolding sane_def
    using assms(1) q f cnt1 bits1 emp1
    by (auto simp: sane_def s1_def)
qed

lemma sane_eliminate:
  assumes "sane s" "eliminate s j d = (r, s')"
  shows "sane s'" and "j < 81 \<Longrightarrow> \<not> bad_shift d \<Longrightarrow> r \<noteq> Some Undefined"
proof -
  let ?s1 = "s\<lparr>sd_p := (sd_p s)[j := flip_digit (sd_p s ! j) d],
                sd_c := (sd_c s)[j := sd_c s ! j - 1]\<rparr>"
  have "sane s' \<and> (j < 81 \<longrightarrow> \<not> bad_shift d \<longrightarrow> r \<noteq> Some Undefined)"
  proof (cases "81 \<le> j \<or> bad_shift d \<or> \<not> has_digit (sd_p s ! j) d")
    case True
    with assms show ?thesis by (auto simp: eliminate_def split: if_splits)
  next
    case False
    then have j: "j < 81" and h: "has_digit (sd_p s ! j) d" and b: "\<not> bad_shift d" by auto
    note st = sane_strike [OF assms(1) j h]
    from assms(1) have len: "length (sd_q s) = 81" by (simp add: sane_def)
    have qi: "sd_q_i ?s1 = sd_q_i s" by simp
    show ?thesis
    proof (cases "sd_c ?s1 ! j = 0")
      case True
      with assms(2) j h b have "r = Some Contradiction" "s' = fail_leaf ?s1"
        by (auto simp: eliminate_def Let_def)
      with st(1) show ?thesis by (simp add: sane_fail_leaf)
    next
      case c0: False
      show ?thesis
      proof (cases "sd_c ?s1 ! j = 1")
        case True
        then have "unat (sd_c ?s1 ! j) = 1" by simp
        with st(2) have two: "unat (sd_c s ! j) = 2" by simp
        then have "j \<notin> low_cells s" by (simp add: low_cells_def)
        from card_low_cells [OF j this] assms(1) have lt: "sd_q_i s < 81"
          by (simp add: sane_def)
        with assms(2) j h b c0 True
        have r: "r = None" and s': "s' = ?s1\<lparr>sd_q := (sd_q ?s1)[sd_q_i ?s1 := of_nat j],
                                       sd_q_i := sd_q_i ?s1 + 1\<rparr>"
          by (auto simp: eliminate_def Let_def)
        from st(3) two \<open>j \<notin> low_cells s\<close>
        have "card (low_cells ?s1) = card (low_cells s) + 1" by simp
        with assms(1) have q: "sd_q_i s + 1 \<le> card (low_cells ?s1)" by (simp add: sane_def)
        have uj: "unat (of_nat j :: 8 word) = j" using j by (simp add: unat_of_nat)
        have ent: "unat ((sd_q s)[sd_q_i s := of_nat j] ! k) < 81" if "k < sd_q_i s + 1" for k
          using that st(1) len lt uj j
          by (cases "k = sd_q_i s") (auto simp: sane_def)
        have "sane s'"
          unfolding sane_def s'
          using st(1) q ent
          by (auto simp: sane_def filled_cells_def low_cells_def)
        with r show ?thesis by simp
      next
        case False
        with assms(2) j h b c0 have "r = None" "s' = ?s1"
          by (auto simp: eliminate_def Let_def)
        with st(1) show ?thesis by simp
      qed
    qed
  qed
  then show "sane s'" and "j < 81 \<Longrightarrow> \<not> bad_shift d \<Longrightarrow> r \<noteq> Some Undefined" by simp_all
qed

text \<open>
  What no step of the propagation undoes: the clues and the tracking flag stay, an
  assigned cell keeps its value, and masks only lose bits.
\<close>

definition extends :: "sudoku \<Rightarrow> sudoku \<Rightarrow> bool" where
  "extends s s' \<longleftrightarrow> sd_o s' = sd_o s \<and> sd_e s' = sd_e s
     \<and> (\<forall>i<81. sd_v s ! i \<noteq> 0 \<longrightarrow> sd_v s' ! i = sd_v s ! i)
     \<and> (\<forall>i<81. \<forall>k. bit (sd_p s' ! i) k \<longrightarrow> bit (sd_p s ! i) k)"

lemma extends_refl: "extends s s"
  by (simp add: extends_def)

lemma extends_trans: "extends a b \<Longrightarrow> extends b c \<Longrightarrow> extends a c"
  unfolding extends_def
proof (intro conjI allI impI)
  assume h: "sd_o b = sd_o a \<and> sd_e b = sd_e a
     \<and> (\<forall>i<81. sd_v a ! i \<noteq> 0 \<longrightarrow> sd_v b ! i = sd_v a ! i)
     \<and> (\<forall>i<81. \<forall>k. bit (sd_p b ! i) k \<longrightarrow> bit (sd_p a ! i) k)"
    "sd_o c = sd_o b \<and> sd_e c = sd_e b
     \<and> (\<forall>i<81. sd_v b ! i \<noteq> 0 \<longrightarrow> sd_v c ! i = sd_v b ! i)
     \<and> (\<forall>i<81. \<forall>k. bit (sd_p c ! i) k \<longrightarrow> bit (sd_p b ! i) k)"
  show "sd_o c = sd_o a" "sd_e c = sd_e a" using h by simp_all
  fix i :: nat assume i: "i < 81"
  show "sd_v c ! i = sd_v a ! i" if "sd_v a ! i \<noteq> 0"
    using h i that by auto
  show "bit (sd_p a ! i) k" if "bit (sd_p c ! i) k" for k
    using h i that by blast
qed

lemma extends_eliminate:
  assumes "sane s" "eliminate s j d = (r, s')"
  shows "extends s s'"
proof (cases "81 \<le> j \<or> bad_shift d \<or> \<not> has_digit (sd_p s ! j) d")
  case True
  with assms(2) show ?thesis by (auto simp: eliminate_def extends_refl split: if_splits)
next
  case False
  then have j: "j < 81" and h: "has_digit (sd_p s ! j) d" by auto
  from assms(1) have len: "length (sd_p s) = 81" by (simp add: sane_def)
  have p: "sd_p s' = (sd_p s)[j := flip_digit (sd_p s ! j) d]"
    and rest: "sd_v s' = sd_v s" "sd_o s' = sd_o s" "sd_e s' = sd_e s"
    using assms(2) False
    by (auto simp: eliminate_def Let_def fail_leaf_def split: if_splits)
  have "bit (sd_p s ! i) k" if "i < 81" "bit (sd_p s' ! i) k" for i k
    using that p len j h by (cases "i = j") (auto simp: bit_flip_digit)
  with rest show ?thesis by (simp add: extends_def)
qed

lemma extends_assign:
  assumes "sane s" "i < 81" "\<not> bad_shift d" "has_digit (sd_p s ! i) d"
  shows "extends s (assign s i d)"
proof -
  note dg = digit_of_has_digit [OF assms(1,2,4,3)]
  from assms(1) have len: "length (sd_p s) = 81" "length (sd_v s) = 81" by (simp_all add: sane_def)
  have "sd_v (assign s i d) ! k = sd_v s ! k" if "sd_v s ! k \<noteq> 0" for k
    using that dg(3) by (cases "k = i") (auto simp: assign_def)
  moreover have "bit (sd_p s ! k) b" if "k < 81" "bit (sd_p (assign s i d) ! k) b" for k b
    using that len assms(2) by (cases "k = i") (auto simp: assign_def)
  ultimately show ?thesis by (auto simp: extends_def assign_def)
qed

lemma sane_mark_drain:
  "sane s \<Longrightarrow> mark s i d = (r, s') \<Longrightarrow> sane s' \<and> extends s s'"
  "sane s \<Longrightarrow> drain s = (r, s') \<Longrightarrow> sane s' \<and> extends s s'"
proof -
  have el: "sane s' \<and> extends s s'" if "sane s" "eliminate s j d = (r, s')" for s j d r s'
    using that sane_eliminate(1) extends_eliminate by blast
  have asg: "sane (assign s i d) \<and> extends s (assign s i d)"
    if "sane s" "i < 81" "sd_v s ! i \<noteq> d" "\<not> bad_shift d" "has_digit (sd_p s ! i) d"
    for s i d
    using that sane_assign extends_assign by blast
  have pop: "sane (s\<lparr>sd_q_o := sd_q_o s + 1\<rparr>) \<and> extends s (s\<lparr>sd_q_o := sd_q_o s + 1\<rparr>)"
    if "sane s" "sd_q_o s < sd_q_i s" "sd_q_o s < 81" for s
    using that sane_pop by (simp add: extends_def)
  have leaf: "sane (fail_leaf s) \<and> extends s (fail_leaf s)" if "sane s" for s
    using that sane_fail_leaf by (simp add: extends_def fail_leaf_def)
  show "sane s' \<and> extends s s'" if "sane s" "mark s i d = (r, s')"
  proof (rule mark_drain_steps(1) [where I = sane and R = extends])
    show "extends s s" for s by (rule extends_refl)
    show "extends a c" if "extends a b" "extends b c" for a b c
      using that by (rule extends_trans)
    show "sane s' \<and> extends s s'" if "sane s" "eliminate s j d = (r, s')" for s j d r s'
      using that by (rule el)
    show "sane (assign s i d) \<and> extends s (assign s i d)"
      if "sane s" "i < 81" "sd_v s ! i \<noteq> d" "\<not> bad_shift d" "has_digit (sd_p s ! i) d"
      for s i d
      using that by (rule asg)
    show "sane (s\<lparr>sd_q_o := sd_q_o s + 1\<rparr>) \<and> extends s (s\<lparr>sd_q_o := sd_q_o s + 1\<rparr>)"
      if "sane s" "sd_q_o s < sd_q_i s" "sd_q_o s < 81" for s
      using that by (rule pop)
    show "sane (fail_leaf s) \<and> extends s (fail_leaf s)" if "sane s" for s
      using that by (rule leaf)
  qed (use that in simp_all)
  show "sane s' \<and> extends s s'" if "sane s" "drain s = (r, s')"
  proof (rule mark_drain_steps(2) [where I = sane and R = extends])
    show "extends s s" for s by (rule extends_refl)
    show "extends a c" if "extends a b" "extends b c" for a b c
      using that by (rule extends_trans)
    show "sane s' \<and> extends s s'" if "sane s" "eliminate s j d = (r, s')" for s j d r s'
      using that by (rule el)
    show "sane (assign s i d) \<and> extends s (assign s i d)"
      if "sane s" "i < 81" "sd_v s ! i \<noteq> d" "\<not> bad_shift d" "has_digit (sd_p s ! i) d"
      for s i d
      using that by (rule asg)
    show "sane (s\<lparr>sd_q_o := sd_q_o s + 1\<rparr>) \<and> extends s (s\<lparr>sd_q_o := sd_q_o s + 1\<rparr>)"
      if "sane s" "sd_q_o s < sd_q_i s" "sd_q_o s < 81" for s
      using that by (rule pop)
    show "sane (fail_leaf s) \<and> extends s (fail_leaf s)" if "sane s" for s
      using that by (rule leaf)
  qed (use that in simp_all)
qed

text \<open>
  The grid states reachable from \<open>reset\<close> by any sequence of \<open>mark\<close> and \<open>eliminate\<close>
  operations, whatever they return.
\<close>

inductive reachable :: "sudoku \<Rightarrow> bool" where
  reset: "reachable (reset s)"
| mark: "reachable s \<Longrightarrow> mark s i d = (r, s') \<Longrightarrow> reachable s'"
| eliminate: "reachable s \<Longrightarrow> eliminate s i d = (r, s') \<Longrightarrow> reachable s'"

lemma reachable_sane: "reachable s \<Longrightarrow> sane s"
proof (induction rule: reachable.induct)
  case (reset s)
  show ?case by (rule sane_reset)
next
  case (mark s i d r s')
  with sane_mark_drain(1) show ?case by blast
next
  case (eliminate s i d r s')
  with sane_eliminate(1) show ?case by blast
qed

text \<open>
  C8. In every grid state reachable from \<open>reset\<close> by any sequence of \<open>mark\<close> and
  \<open>eliminate\<close> operations, failed ones included, \<open>candidateCount[i]\<close> is the number of
  bits set in \<open>candidates[i]\<close> for every cell, and both are 0 for every assigned cell.
\<close>

theorem count_invariant:
  assumes "reachable s"
  shows "(\<forall>i<81. unat (sd_c s ! i) = popcount (sd_p s ! i))
    \<and> (\<forall>i<81. sd_v s ! i \<noteq> 0 \<longrightarrow> sd_p s ! i = 0 \<and> sd_c s ! i = 0)"
proof -
  from assms have s: "sane s" by (rule reachable_sane)
  have "sd_c s ! i = 0" if "i < 81" "sd_p s ! i = 0" for i
  proof -
    from s that have "unat (sd_c s ! i) = 0" by (simp add: sane_def)
    then show ?thesis by (simp add: unat_eq_0)
  qed
  with s show ?thesis by (auto simp: sane_def)
qed

theorem count_invariant_witness:
  "reachable (snd (mark (reset empty_grid) 0 5))
   \<and> sd_v (snd (mark (reset empty_grid) 0 5)) ! 0 = 5
   \<and> sd_p (snd (mark (reset empty_grid) 0 5)) ! 0 = 0
   \<and> sd_c (snd (mark (reset empty_grid) 0 5)) ! 0 = 0
   \<and> unat (sd_c (snd (mark (reset empty_grid) 0 5)) ! 1)
       = popcount (sd_p (snd (mark (reset empty_grid) 0 5)) ! 1)"
proof -
  let ?s = "snd (mark (reset empty_grid) 0 5)"
  have r: "reachable ?s"
    by (rule reachable.mark [OF reachable.reset, of empty_grid 0 5 "fst (mark (reset empty_grid) 0 5)"])
      simp
  have v: "sd_v ?s ! 0 = 5" by code_simp
  from count_invariant [OF r] r v show ?thesis by simp
qed

definition cascade_string :: string where
  "cascade_string = ''..1234567........................................................................''"

definition cascade_grid :: sudoku where
  "cascade_grid = snd (mark_clues (reset (snd (from_string empty_grid cascade_string))) [0..<81])"

text \<open>A cell that holds digit \<open>d\<close> keeps it, with an empty mask and a zero count.\<close>

definition holds :: "nat \<Rightarrow> 8 word \<Rightarrow> sudoku \<Rightarrow> bool" where
  "holds i d s \<longleftrightarrow> length (sd_v s) = 81 \<and> length (sd_p s) = 81 \<and> length (sd_c s) = 81
     \<and> sd_v s ! i = d \<and> sd_p s ! i = 0 \<and> sd_c s ! i = 0"

lemma has_digit_0 [simp]: "\<not> has_digit 0 d"
  by (simp add: has_digit_def)

lemma holds_eliminate: "holds i d s \<Longrightarrow> eliminate s j d' = (r, s') \<Longrightarrow> holds i d s' \<and> sd_n s \<le> sd_n s'"
  by (cases "j = i")
    (auto simp: holds_def eliminate_def Let_def fail_leaf_def split: if_splits)

lemma holds_mark_drain:
  "holds i d s \<Longrightarrow> mark s j d' = (r, s') \<Longrightarrow> holds i d s' \<and> sd_n s \<le> sd_n s'"
  "holds i d s \<Longrightarrow> drain s = (r, s') \<Longrightarrow> holds i d s' \<and> sd_n s \<le> sd_n s'"
proof -
  have asg: "holds i d (assign s k d') \<and> sd_n s \<le> sd_n (assign s k d')"
    if "holds i d s" "has_digit (sd_p s ! k) d'" for s k d'
  proof -
    from that have "k \<noteq> i" by (auto simp: holds_def)
    with that(1) show ?thesis by (simp add: holds_def assign_def)
  qed
  show "holds i d s' \<and> sd_n s \<le> sd_n s'" if "holds i d s" "mark s j d' = (r, s')"
  proof (rule mark_drain_steps(1) [where I = "holds i d" and R = "\<lambda>a b. sd_n a \<le> sd_n b"])
    show "holds i d s' \<and> sd_n s \<le> sd_n s'" if "holds i d s" "eliminate s j d' = (r, s')"
      for s j d' r s'
      using that by (rule holds_eliminate)
    show "holds i d (assign s k d') \<and> sd_n s \<le> sd_n (assign s k d')"
      if "holds i d s" "k < 81" "sd_v s ! k \<noteq> d'" "\<not> bad_shift d'" "has_digit (sd_p s ! k) d'"
      for s k d'
      using that(1,5) by (rule asg)
    show "holds i d (s\<lparr>sd_q_o := sd_q_o s + 1\<rparr>) \<and> sd_n s \<le> sd_n (s\<lparr>sd_q_o := sd_q_o s + 1\<rparr>)"
      if "holds i d s" for s
      using that by (simp add: holds_def)
    show "holds i d (fail_leaf s) \<and> sd_n s \<le> sd_n (fail_leaf s)" if "holds i d s" for s
      using that by (simp add: holds_def fail_leaf_def)
  qed (use that in simp_all)
  show "holds i d s' \<and> sd_n s \<le> sd_n s'" if "holds i d s" "drain s = (r, s')"
  proof (rule mark_drain_steps(2) [where I = "holds i d" and R = "\<lambda>a b. sd_n a \<le> sd_n b"])
    show "holds i d s' \<and> sd_n s \<le> sd_n s'" if "holds i d s" "eliminate s j d' = (r, s')"
      for s j d' r s'
      using that by (rule holds_eliminate)
    show "holds i d (assign s k d') \<and> sd_n s \<le> sd_n (assign s k d')"
      if "holds i d s" "k < 81" "sd_v s ! k \<noteq> d'" "\<not> bad_shift d'" "has_digit (sd_p s ! k) d'"
      for s k d'
      using that(1,5) by (rule asg)
    show "holds i d (s\<lparr>sd_q_o := sd_q_o s + 1\<rparr>) \<and> sd_n s \<le> sd_n (s\<lparr>sd_q_o := sd_q_o s + 1\<rparr>)"
      if "holds i d s" for s
      using that by (simp add: holds_def)
    show "holds i d (fail_leaf s) \<and> sd_n s \<le> sd_n (fail_leaf s)" if "holds i d s" for s
      using that by (simp add: holds_def fail_leaf_def)
  qed (use that in simp_all)
qed

lemma holds_eliminate_peers:
  "holds i d s \<Longrightarrow> eliminate_peers s js d' = (r, s') \<Longrightarrow> holds i d s' \<and> sd_n s \<le> sd_n s'"
proof (rule eliminate_peers_steps [where I = "holds i d" and R = "\<lambda>a b. sd_n a \<le> sd_n b"])
  show "holds i d s' \<and> sd_n s \<le> sd_n s'" if "holds i d s" "eliminate s j d' = (r, s')"
    for s j d' r s'
    using that by (rule holds_eliminate)
qed simp_all


subsection \<open>The invariant of the propagation\<close>

text \<open>The cells waiting in the forced queue, in the order they will be popped.\<close>

definition pending :: "sudoku \<Rightarrow> nat list" where
  "pending s = map (\<lambda>k. unat (sd_q s ! k)) [sd_q_o s..<sd_q_i s]"

text \<open>
  The waiting cells are distinct, unassigned and have one candidate; every other
  unassigned cell outside \<open>X\<close> has at least two.
\<close>

definition queue_ok :: "sudoku \<Rightarrow> nat set \<Rightarrow> bool" where
  "queue_ok s X \<longleftrightarrow> distinct (pending s)
     \<and> (\<forall>j \<in> set (pending s). j \<notin> X \<and> sd_v s ! j = 0 \<and> unat (sd_c s ! j) = 1)
     \<and> (\<forall>j<81. j \<notin> X \<longrightarrow> sd_v s ! j = 0 \<longrightarrow>
           sd_c s ! j \<noteq> 0 \<and> (unat (sd_c s ! j) = 1 \<longrightarrow> j \<in> set (pending s)))"

text \<open>
  The digit of every assigned cell is struck from the masks of its peers; for the cell
  \<open>x\<close>, whose peers are being processed, from those in \<open>D\<close>.
\<close>

definition peers_ok :: "sudoku \<Rightarrow> nat \<Rightarrow> nat set \<Rightarrow> bool" where
  "peers_ok s x D \<longleftrightarrow> (\<forall>a<81. \<forall>j<81. peer a j \<longrightarrow> sd_v s ! a \<noteq> 0 \<longrightarrow> a \<noteq> x \<or> j \<in> D \<longrightarrow>
     \<not> has_digit (sd_p s ! j) (sd_v s ! a))"

definition distinct_peers :: "sudoku \<Rightarrow> bool" where
  "distinct_peers s \<longleftrightarrow> (\<forall>a<81. \<forall>j<81. peer a j \<longrightarrow> sd_v s ! a \<noteq> 0 \<longrightarrow> sd_v s ! j \<noteq> sd_v s ! a)"

definition good :: "sudoku \<Rightarrow> bool" where
  "good s \<longleftrightarrow> sane s \<and> queue_ok s {} \<and> peers_ok s 0 UNIV \<and> distinct_peers s"

definition settled :: "sudoku \<Rightarrow> bool" where
  "settled s \<longleftrightarrow> good s \<and> sd_q_o s = sd_q_i s"

lemma peers_ok_UNIV: "peers_ok s x UNIV \<longleftrightarrow> peers_ok s y UNIV"
  by (simp add: peers_ok_def)

lemma pending_bound: "sane s \<Longrightarrow> j \<in> set (pending s) \<Longrightarrow> j < 81"
  by (auto simp: pending_def sane_def)

lemma settled_reset: "settled (reset s)"
proof -
  have "pending (reset s) = []" by (simp add: pending_def reset_def)
  moreover have "unat (9 :: 8 word) \<noteq> 1" "(9 :: 8 word) \<noteq> 0" by simp_all
  ultimately show ?thesis
    using sane_reset [of s]
    by (auto simp: settled_def good_def queue_ok_def peers_ok_def distinct_peers_def reset_def)
qed

text \<open>Placing a digit: the state between the four assignments and the loop over the peers.\<close>

lemma assign_mid:
  assumes "sane s" "queue_ok s {i}" "peers_ok s 0 UNIV" "distinct_peers s"
    and "i < 81" "\<not> bad_shift d" "has_digit (sd_p s ! i) d"
  shows "sane (assign s i d)" "queue_ok (assign s i d) {}" "peers_ok (assign s i d) i {}"
    "distinct_peers (assign s i d)" "sd_v (assign s i d) ! i = d"
proof -
  let ?s1 = "assign s i d"
  note dg = digit_of_has_digit [OF assms(1,5,7,6)]
  from dg(1) have d0: "d \<noteq> 0" by auto
  from assms(1) have len: "length (sd_v s) = 81" "length (sd_p s) = 81" "length (sd_c s) = 81"
    by (simp_all add: sane_def)
  show "sane ?s1" by (rule sane_assign [OF assms(1,5,6,7)])
  have v: "sd_v ?s1 ! j = (if j = i then d else sd_v s ! j)" if "j < 81" for j
    using that len assms(5) by (simp add: assign_def nth_list_update)
  have c: "sd_c ?s1 ! j = (if j = i then 0 else sd_c s ! j)" if "j < 81" for j
    using that len assms(5) by (simp add: assign_def nth_list_update)
  have p: "sd_p ?s1 ! j = (if j = i then 0 else sd_p s ! j)" if "j < 81" for j
    using that len assms(5) by (simp add: assign_def nth_list_update)
  show "sd_v ?s1 ! i = d" using v assms(5) by simp
  have pe: "pending ?s1 = pending s" by (simp add: pending_def assign_def)
  have pb: "j < 81" if "j \<in> set (pending s)" for j
    using that assms(1) by (rule pending_bound [rotated])
  show "queue_ok ?s1 {}"
    unfolding queue_ok_def pe
  proof (intro conjI ballI allI impI)
    show "distinct (pending s)" using assms(2) by (simp add: queue_ok_def)
  next
    fix j assume j: "j \<in> set (pending s)"
    with assms(2) have "j \<noteq> i" "sd_v s ! j = 0" "unat (sd_c s ! j) = 1"
      by (auto simp: queue_ok_def)
    with v [OF pb [OF j]] c [OF pb [OF j]]
    show "j \<notin> {}" "sd_v ?s1 ! j = 0" "unat (sd_c ?s1 ! j) = 1" by simp_all
  next
    fix j assume j: "j < 81" "sd_v ?s1 ! j = 0"
    with v [of j] d0 have ne: "j \<noteq> i" and v0: "sd_v s ! j = 0" by (auto split: if_splits)
    with assms(2) j(1) have "sd_c s ! j \<noteq> 0 \<and> (unat (sd_c s ! j) = 1 \<longrightarrow> j \<in> set (pending s))"
      by (simp add: queue_ok_def)
    with c [OF j(1)] ne
    show "sd_c ?s1 ! j \<noteq> 0" "unat (sd_c ?s1 ! j) = 1 \<Longrightarrow> j \<in> set (pending s)" by simp_all
  qed
  show "peers_ok ?s1 i {}"
    unfolding peers_ok_def
  proof (intro allI impI)
    fix a j assume a: "a < 81" "j < 81" "peer a j" "sd_v ?s1 ! a \<noteq> 0" "a \<noteq> i \<or> j \<in> {}"
    then have ai: "a \<noteq> i" by simp
    with v [OF a(1)] a(4) have va: "sd_v ?s1 ! a = sd_v s ! a" "sd_v s ! a \<noteq> 0" by simp_all
    with assms(3) a(1,2,3) have "\<not> has_digit (sd_p s ! j) (sd_v s ! a)"
      by (simp add: peers_ok_def)
    with p [OF a(2)] va show "\<not> has_digit (sd_p ?s1 ! j) (sd_v ?s1 ! a)" by simp
  qed
  have new: "sd_v s ! j \<noteq> d" if "j < 81" "peer i j" for j
  proof
    assume e: "sd_v s ! j = d"
    with d0 have "sd_v s ! j \<noteq> 0" by simp
    moreover from that have "peer j i" by (simp add: peer_sym)
    ultimately have "\<not> has_digit (sd_p s ! i) (sd_v s ! j)"
      using assms(3,5) that(1) by (simp add: peers_ok_def)
    with e assms(7) show False by simp
  qed
  show "distinct_peers ?s1"
    unfolding distinct_peers_def
  proof (intro allI impI)
    fix a j assume a: "a < 81" "j < 81" "peer a j" "sd_v ?s1 ! a \<noteq> 0"
    then have aj: "a \<noteq> j" by (auto simp: peer_def)
    show "sd_v ?s1 ! j \<noteq> sd_v ?s1 ! a"
    proof (cases "a = i")
      case True
      with aj a new [of j] v [OF a(2)] v [OF a(1)] show ?thesis by simp
    next
      case ai: False
      show ?thesis
      proof (cases "j = i")
        case True
        with a have "peer i a" by (simp add: peer_sym)
        from new [OF a(1) this] ai True v [OF a(1)] v [OF a(2)] show ?thesis by auto
      next
        case False
        with ai a v [OF a(1)] v [OF a(2)] assms(4) show ?thesis
          by (simp add: distinct_peers_def)
      qed
    qed
  qed
qed

text \<open>One call of \<open>eliminate\<close> in the loop over the peers of the cell \<open>i\<close> just assigned.\<close>

lemma eliminate_mid:
  assumes sane: "sane s" and q: "queue_ok s {}" and pk: "peers_ok s i D" and dp: "distinct_peers s"
    and i: "i < 81" "sd_v s ! i = d" "\<not> bad_shift d"
    and j: "j < 81"
    and run: "eliminate s j d = (r, s')"
  shows "r \<noteq> Some Undefined"
    and "r = None \<Longrightarrow> sane s' \<and> queue_ok s' {} \<and> peers_ok s' i (insert j D) \<and> distinct_peers s'"
proof -
  from sane_eliminate [OF sane run] j i(3) have u: "r \<noteq> Some Undefined" and sane': "sane s'"
    by simp_all
  from u show "r \<noteq> Some Undefined" .
  from i(3) have d0: "d \<noteq> 0" by (simp add: bad_shift_def)
  show "sane s' \<and> queue_ok s' {} \<and> peers_ok s' i (insert j D) \<and> distinct_peers s'"
    if ok: "r = None"
  proof (cases "has_digit (sd_p s ! j) d")
    case False
    with run j i(3) have same: "s' = s" by (simp add: eliminate_def)
    have "peers_ok s i (insert j D)"
      using pk False i(2) by (auto simp: peers_ok_def)
    with same sane q dp show ?thesis by simp
  next
    case h: True
    let ?s1 = "s\<lparr>sd_p := (sd_p s)[j := flip_digit (sd_p s ! j) d],
                  sd_c := (sd_c s)[j := sd_c s ! j - 1]\<rparr>"
    note st = sane_strike [OF sane j h]
    from sane have len: "length (sd_p s) = 81" "length (sd_c s) = 81" "length (sd_q s) = 81"
      by (simp_all add: sane_def)
    from digit_of_has_digit [OF sane j h i(3)] have vj: "sd_v s ! j = 0" by simp
    from run ok j i(3) h have c0: "sd_c ?s1 ! j \<noteq> 0"
      by (auto simp: eliminate_def Let_def split: if_splits)
    then have c0': "unat (sd_c ?s1 ! j) \<noteq> 0" by (simp add: unat_eq_0)
    with st(2) have big: "2 \<le> unat (sd_c s ! j)" by simp
    have notin: "j \<notin> set (pending s)"
      using q big by (auto simp: queue_ok_def)
    have v': "sd_v s' = sd_v s"
      using run by (auto simp: eliminate_def Let_def fail_leaf_def split: if_splits)
    have p': "sd_p s' ! k = (if k = j then flip_digit (sd_p s ! j) d else sd_p s ! k)"
      if "k < 81" for k
      using run that len j h i(3)
      by (auto simp: eliminate_def Let_def fail_leaf_def split: if_splits)
    have c': "sd_c s' ! k = (if k = j then sd_c s ! j - 1 else sd_c s ! k)" if "k < 81" for k
      using run that len j h i(3)
      by (auto simp: eliminate_def Let_def fail_leaf_def split: if_splits)
    have cj: "unat (sd_c s' ! j) = unat (sd_c s ! j) - 1"
      using c' [OF j] st(2) len j by simp
    have pend: "pending s' = (if unat (sd_c s ! j) = 2 then pending s @ [j] else pending s)"
    proof (cases "sd_c ?s1 ! j = 1")
      case True
      then have "unat (sd_c ?s1 ! j) = 1" by simp
      with st(2) have two: "unat (sd_c s ! j) = 2" by simp
      then have "j \<notin> low_cells s" by (simp add: low_cells_def)
      from card_low_cells [OF j this] sane have lt: "sd_q_i s < 81" by (simp add: sane_def)
      from run j i(3) h c0 True lt
      have s': "s' = ?s1\<lparr>sd_q := (sd_q s)[sd_q_i s := of_nat j], sd_q_i := sd_q_i s + 1\<rparr>"
        by (auto simp: eliminate_def Let_def)
      have le: "sd_q_o s \<le> sd_q_i s" using sane by (simp add: sane_def)
      have uj: "unat (of_nat j :: 8 word) = j" using j by (simp add: unat_of_nat)
      have "pending s' = map (\<lambda>k. unat ((sd_q s)[sd_q_i s := of_nat j] ! k)) [sd_q_o s..<sd_q_i s]
          @ [unat ((sd_q s)[sd_q_i s := of_nat j] ! sd_q_i s)]"
        using le by (simp add: pending_def s')
      also have "\<dots> = pending s @ [j]"
        using lt len uj by (simp add: pending_def)
      finally show ?thesis using two by simp
    next
      case False
      then have "unat (sd_c ?s1 ! j) \<noteq> 1" by (metis unat_1 unsigned_word_eqI)
      with st(2) have two: "unat (sd_c s ! j) \<noteq> 2" by simp
      from run j i(3) h c0 False have "s' = ?s1" by (auto simp: eliminate_def Let_def)
      then have "pending s' = pending s" by (simp add: pending_def)
      with two show ?thesis by simp
    qed
    have sub: "set (pending s) \<subseteq> set (pending s')" using pend by auto
    have q': "queue_ok s' {}"
      unfolding queue_ok_def
    proof (intro conjI ballI allI impI)
      show "distinct (pending s')" using pend notin q by (auto simp: queue_ok_def)
    next
      fix k assume k: "k \<in> set (pending s')"
      show "k \<notin> {}" by simp
      have "sd_v s' ! k = 0 \<and> unat (sd_c s' ! k) = 1"
      proof (cases "k = j")
        case True
        with k pend notin have "unat (sd_c s ! j) = 2" by (auto split: if_splits)
        with cj True vj v' show ?thesis by simp
      next
        case False
        with k pend have kp: "k \<in> set (pending s)" by (auto split: if_splits)
        then have "k < 81" using sane by (rule pending_bound [rotated])
        with kp q c' [of k] False v' show ?thesis by (auto simp: queue_ok_def)
      qed
      then show "sd_v s' ! k = 0" "unat (sd_c s' ! k) = 1" by simp_all
    next
      fix k assume k: "k < 81" "sd_v s' ! k = 0"
      have "sd_c s' ! k \<noteq> 0 \<and> (unat (sd_c s' ! k) = 1 \<longrightarrow> k \<in> set (pending s'))"
      proof (cases "k = j")
        case True
        have "sd_c s' ! j \<noteq> 0" using cj big by (auto simp: unat_eq_0 [symmetric])
        moreover have "j \<in> set (pending s')" if "unat (sd_c s' ! j) = 1"
          using that cj pend by auto
        ultimately show ?thesis using True by simp
      next
        case False
        with k q v' c' [OF k(1)] sub show ?thesis by (auto simp: queue_ok_def)
      qed
      then show "sd_c s' ! k \<noteq> 0" "unat (sd_c s' ! k) = 1 \<Longrightarrow> k \<in> set (pending s')"
        by simp_all
    qed
    have keep: "\<not> has_digit (sd_p s' ! k) x" if "k < 81" "\<not> has_digit (sd_p s ! k) x" for k x
      using that p' [OF that(1)] h
      by (cases "k = j") (auto simp: has_digit_def bit_flip_digit)
    have struck: "\<not> has_digit (sd_p s' ! j) d"
      using p' [OF j] h by (simp add: has_digit_def bit_flip_digit)
    have pk': "peers_ok s' i (insert j D)"
      unfolding peers_ok_def
    proof (intro allI impI)
      fix a k assume a: "a < 81" "k < 81" "peer a k" "sd_v s' ! a \<noteq> 0" "a \<noteq> i \<or> k \<in> insert j D"
      show "\<not> has_digit (sd_p s' ! k) (sd_v s' ! a)"
      proof (cases "a = i \<and> k = j")
        case True
        with struck i(2) v' show ?thesis by simp
      next
        case False
        with a have "a \<noteq> i \<or> k \<in> D" by auto
        with pk a v' have "\<not> has_digit (sd_p s ! k) (sd_v s ! a)" by (simp add: peers_ok_def)
        from keep [OF a(2) this] v' show ?thesis by simp
      qed
    qed
    from dp v' have "distinct_peers s'" by (simp add: distinct_peers_def)
    with sane' q' pk' show ?thesis by simp
  qed
qed

lemma eliminate_v: "eliminate s j d = (r, s') \<Longrightarrow> sd_v s' = sd_v s"
  by (auto simp: eliminate_def Let_def fail_leaf_def split: if_splits)

lemma eliminate_peers_mid:
  assumes "sane s" "queue_ok s {}" "peers_ok s i D" "distinct_peers s"
    and "i < 81" "sd_v s ! i = d" "\<not> bad_shift d"
    and "\<forall>j \<in> set js. j < 81"
    and "eliminate_peers s js d = (r, s')"
  shows "r \<noteq> Some Undefined \<and> (r = None \<longrightarrow> sane s' \<and> queue_ok s' {}
           \<and> peers_ok s' i (D \<union> set js) \<and> distinct_peers s' \<and> sd_v s' ! i = d)"
  using assms
proof (induction js arbitrary: s D)
  case Nil
  then show ?case by simp
next
  case (Cons j js)
  obtain r1 s1 where e1: "eliminate s j d = (r1, s1)" by (cases "eliminate s j d")
  from Cons.prems(8) have j: "j < 81" and js: "\<forall>j \<in> set js. j < 81" by simp_all
  note mid = eliminate_mid [OF Cons.prems(1-4) Cons.prems(5-7) j e1]
  show ?case
  proof (cases r1)
    case None
    with mid(2) have s1: "sane s1" "queue_ok s1 {}" "peers_ok s1 i (insert j D)"
      "distinct_peers s1" by simp_all
    from eliminate_v [OF e1] Cons.prems(6) have v1: "sd_v s1 ! i = d" by simp
    from Cons.prems(9) e1 None have "eliminate_peers s1 js d = (r, s')" by simp
    from Cons.IH [OF s1 Cons.prems(5) v1 Cons.prems(7) js this] show ?thesis by simp
  next
    case (Some a)
    with Cons.prems(9) e1 have "r = Some a" by simp
    with mid(1) Some show ?thesis by simp
  qed
qed

lemma relations_take: "i < 81 \<Longrightarrow> take 20 (relations i) = relations i"
  by (simp add: relations_length)

text \<open>After the loop over the peers, the invariant holds again.\<close>

lemma mark_mid:
  assumes "sane s" "queue_ok s {i}" "peers_ok s 0 UNIV" "distinct_peers s"
    and "i < 81" "\<not> bad_shift d" "has_digit (sd_p s ! i) d"
    and "eliminate_peers (assign s i d) (take 20 (relations i)) d = (r, s')"
  shows "r \<noteq> Some Undefined" and "r = None \<Longrightarrow> good s'"
proof -
  note a = assign_mid [OF assms(1-7)]
  have b: "\<forall>j \<in> set (take 20 (relations i)). j < 81"
    using assms(5) by (simp add: relations_take relations_peer)
  note e = eliminate_peers_mid [OF a(1-4) assms(5) a(5) assms(6) b assms(8)]
  from e show "r \<noteq> Some Undefined" by simp
  assume "r = None"
  with e have s': "sane s'" "queue_ok s' {}" "peers_ok s' i ({} \<union> set (take 20 (relations i)))"
    "distinct_peers s'" by simp_all
  have "peers_ok s' 0 UNIV"
    using s'(3) assms(5)
    by (auto simp: peers_ok_def relations_take relations_peer)
  with s' show "good s'" by (simp add: good_def)
qed

subsection \<open>The cell popped from the forced queue\<close>

lemma single_bit:
  assumes "popcount w = 1" "\<forall>k. bit w k \<longrightarrow> k < 9"
  shows "1 \<le> ffs w" "ffs w \<le> 9" "has_digit w (of_nat (ffs w))" "\<not> bad_shift (of_nat (ffs w))"
    "(of_nat (ffs w) :: 8 word) \<noteq> 0"
proof -
  from assms(1) obtain k where k: "filter (bit w) [0..<16] = [k]"
    by (auto simp: popcount_def length_Suc_conv)
  then have "k \<in> set (filter (bit w) [0..<16])" by simp
  then have b: "bit w k" by simp
  with assms(2) have k9: "k < 9" by simp
  from k have f: "ffs w = k + 1" by (simp add: ffs_def)
  from f show "1 \<le> ffs w" by simp
  from f k9 show "ffs w \<le> 9" by simp
  have u: "unat (of_nat (k + 1) :: 8 word) = k + 1" using k9 by (subst unat_of_nat) simp
  with b f show "has_digit w (of_nat (ffs w))" by (simp add: has_digit_def)
  from u f k9 have "unat (of_nat (ffs w) :: 8 word) \<le> 9" "unat (of_nat (ffs w) :: 8 word) \<noteq> 0"
    by simp_all
  then show "\<not> bad_shift (of_nat (ffs w))" "(of_nat (ffs w) :: 8 word) \<noteq> 0"
    by (auto simp: bad_shift_def word_less_nat_alt unat_eq_0)
qed

lemma pop_mid:
  assumes "good s" "sd_q_o s < sd_q_i s"
  defines "j \<equiv> unat (sd_q s ! sd_q_o s)" and "s1 \<equiv> s\<lparr>sd_q_o := sd_q_o s + 1\<rparr>"
  shows "sd_q_o s < 81" "j < 81" "sd_v s ! j = 0" "popcount (sd_p s ! j) = 1"
    "sane s1" "queue_ok s1 {j}" "peers_ok s1 0 UNIV" "distinct_peers s1"
proof -
  from assms(1) have sane: "sane s" and q: "queue_ok s {}" and pk: "peers_ok s 0 UNIV"
    and dp: "distinct_peers s" by (simp_all add: good_def)
  have "card (low_cells s) \<le> card {..<81::nat}"
    by (intro card_mono) (auto simp: low_cells_def)
  with sane assms(2) show "sd_q_o s < 81" by (simp add: sane_def)
  have pend: "pending s = j # pending s1"
    using assms(2) by (simp add: pending_def j_def s1_def upt_conv_Cons)
  then have jp: "j \<in> set (pending s)" by simp
  from pending_bound [OF sane jp] show j: "j < 81" .
  from q jp show "sd_v s ! j = 0" by (simp add: queue_ok_def)
  from q jp sane j show "popcount (sd_p s ! j) = 1" by (auto simp: queue_ok_def sane_def)
  show "sane s1" unfolding s1_def using sane assms(2) by (rule sane_pop)
  show "queue_ok s1 {j}"
    using q pend unfolding queue_ok_def
    by (auto simp: s1_def)
  show "peers_ok s1 0 UNIV" using pk by (simp add: peers_ok_def s1_def)
  show "distinct_peers s1" using dp by (simp add: distinct_peers_def s1_def)
qed

subsection \<open>The propagation keeps the invariant and is well-defined\<close>

lemma queue_ok_filled: "queue_ok s {i} \<Longrightarrow> sd_v s ! i \<noteq> 0 \<Longrightarrow> queue_ok s {}"
  unfolding queue_ok_def by (metis empty_iff singletonD)

lemma mark_drain_good:
  "sane s \<Longrightarrow> queue_ok s {i} \<Longrightarrow> peers_ok s 0 UNIV \<Longrightarrow> distinct_peers s \<Longrightarrow> i < 81
    \<Longrightarrow> \<not> bad_shift d \<Longrightarrow> mark s i d = (r, s')
    \<Longrightarrow> r \<noteq> Some Undefined
        \<and> (r = None \<longrightarrow> good s' \<and> (sd_v s ! i \<noteq> d \<longrightarrow> sd_q_o s' = sd_q_i s'))"
  "good s \<Longrightarrow> drain s = (r, s') \<Longrightarrow> r \<noteq> Some Undefined \<and> (r = None \<longrightarrow> settled s')"
proof (induction s i d and s arbitrary: r s' and r s' rule: mark_drain.induct)
  case (1 s i d)
  note pre = "1.prems"(1-6)
  from pre(6) have d0: "d \<noteq> 0" by (simp add: bad_shift_def)
  from "1.prems"(7) show ?case
  proof (cases rule: mark_cases)
    case range
    with pre show ?thesis by simp
  next
    case noop
    from noop(2) d0 pre(2) have "queue_ok s {}" by (intro queue_ok_filled) auto
    with noop pre show ?thesis by (simp add: good_def)
  next
    case shift
    with pre show ?thesis by simp
  next
    case forbidden
    then show ?thesis by simp
  next
    case (cascade x)
    from mark_mid(1) [OF pre(1-6) cascade(4,5)] cascade(6) show ?thesis by simp
  next
    case (drained s1)
    from mark_mid(2) [OF pre(1-6) drained(4,5)] have g: "good s1" by simp
    have "\<not> 81 \<le> i" using drained(1) by simp
    from "1.IH" [OF this drained(2) drained(3) _ drained(5) [symmetric] refl g drained(6)]
      drained(4)
    have "r \<noteq> Some Undefined \<and> (r = None \<longrightarrow> settled s')" by simp
    then show ?thesis by (simp add: settled_def)
  qed
next
  case (2 s)
  let ?s1 = "s\<lparr>sd_q_o := sd_q_o s + 1\<rparr>"
  let ?i = "unat (sd_q s ! sd_q_o s)"
  let ?d = "of_nat (ffs (sd_p s ! ?i)) :: 8 word"
  note g = "2.prems"(1)
  then have sane: "sane s" by (simp add: good_def)
  from "2.prems"(2) show ?case
  proof (cases rule: drain_cases)
    case empty
    with sane have "sd_q_o s = sd_q_i s" by (simp add: sane_def)
    with empty g show ?thesis by (simp add: settled_def)
  next
    case range
    with pop_mid(1) [OF g] show ?thesis by simp
  next
    case cell
    with pop_mid(2) [OF g] show ?thesis by simp
  next
    case (failed x)
    note pm = pop_mid [OF g failed(1)]
    from sane pm(2) have bits: "\<forall>k. bit (sd_p s ! ?i) k \<longrightarrow> k < 9" by (simp add: sane_def)
    note sb = single_bit [OF pm(4) bits]
    have n: "\<not> 81 \<le> sd_q_o s" "\<not> 81 \<le> ?i" using failed by simp_all
    have m: "mark ?s1 ?i (of_nat (ffs (sd_p ?s1 ! ?i))) = (Some x, s')" using failed(4) by simp
    from "2.IH"(1) [OF failed(1) n(1) refl refl n(2) pm(5-8) pm(2) _ m] sb(4) failed(5)
    show ?thesis by simp
  next
    case (continued s2)
    note pm = pop_mid [OF g continued(1)]
    from sane pm(2) have bits: "\<forall>k. bit (sd_p s ! ?i) k \<longrightarrow> k < 9" by (simp add: sane_def)
    note sb = single_bit [OF pm(4) bits]
    have n: "\<not> 81 \<le> sd_q_o s" "\<not> 81 \<le> ?i" using continued by simp_all
    have m: "mark ?s1 ?i (of_nat (ffs (sd_p ?s1 ! ?i))) = (None, s2)" using continued(4) by simp
    from "2.IH"(1) [OF continued(1) n(1) refl refl n(2) pm(5-8) pm(2) _ m] sb(4)
    have g2: "good s2" by simp
    from "2.IH"(2) [OF continued(1) n(1) refl refl n(2) _ refl g2 continued(5)] m
    show ?thesis by simp
  qed
qed

text \<open>A call of \<open>mark\<close> on a settled grid, as the search and the clue loop make them.\<close>

lemma settled_mark:
  assumes "settled s" "i < 81" "\<not> bad_shift d" "mark s i d = (r, s')"
  shows "r \<noteq> Some Undefined" and "r = None \<Longrightarrow> settled s'"
proof -
  from assms(1) have g: "sane s" "queue_ok s {}" "peers_ok s 0 UNIV" "distinct_peers s"
    and e: "sd_q_o s = sd_q_i s"
    by (simp_all add: settled_def good_def)
  from e have "pending s = []" by (simp add: pending_def)
  with g(2) have q: "queue_ok s {i}" by (auto simp: queue_ok_def)
  note m = mark_drain_good(1) [OF g(1) q g(3,4) assms(2,3,4)]
  from m show "r \<noteq> Some Undefined" by simp
  assume r: "r = None"
  show "settled s'"
  proof (cases "sd_v s ! i = d")
    case True
    with assms(2,4) have "s' = s" by (simp add: mark.simps)
    with assms(1) show ?thesis by simp
  next
    case False
    with m r show ?thesis by (simp add: settled_def)
  qed
qed

text \<open>
  The cells that a call of \<open>SuDoKu__mark\<close> pops from the forced queue, each with its
  candidate mask at the moment it is popped, in the order of the execution: those of the
  loop itself and those of the calls it makes.
\<close>

function mark_pops :: "sudoku \<Rightarrow> nat \<Rightarrow> 8 word \<Rightarrow> (nat \<times> 16 word) list"
  and drain_pops :: "sudoku \<Rightarrow> (nat \<times> 16 word) list" where
  "mark_pops s i d =
    (if 81 \<le> i \<or> sd_v s ! i = d \<or> bad_shift d \<or> \<not> has_digit (sd_p s ! i) d then []
     else (case eliminate_peers (assign s i d) (take 20 (relations i)) d of
             (Some r, s') \<Rightarrow> []
           | (None, s') \<Rightarrow> drain_pops s'))"
| "drain_pops s =
    (if sd_q_o s < sd_q_i s \<and> sd_q_o s < 81 \<and> unat (sd_q s ! sd_q_o s) < 81 then
       (let i = unat (sd_q s ! sd_q_o s); s1 = s\<lparr>sd_q_o := sd_q_o s + 1\<rparr>;
            d = of_nat (ffs (sd_p s1 ! i))
        in (i, sd_p s1 ! i) # mark_pops s1 i d
             @ (case mark s1 i d of (Some r, s2) \<Rightarrow> [] | (None, s2) \<Rightarrow> drain_pops s2))
     else [])"
  by pat_completeness auto

lemma mark_q_o:
  assumes "mark s i d = (r, s')"
  shows "sd_q_o s \<le> sd_q_o s'"
proof -
  have "True \<and> sd_q_o s \<le> sd_q_o s'"
  proof (rule mark_drain_steps(1) [where I = "\<lambda>_. True" and R = "\<lambda>a b. sd_q_o a \<le> sd_q_o b"])
    show "True \<and> sd_q_o s \<le> sd_q_o s'" if "eliminate s j d = (r, s')" for s j d r s'
      using eliminate_q_o [OF that] by simp
    show "mark s i d = (r, s')" by fact
  qed (simp_all add: assign_def fail_leaf_def)
  then show ?thesis by simp
qed

termination mark_pops
proof (relation "measure (\<lambda>x. case x of Inl (s, i, d) \<Rightarrow> 2 * (81 - sd_q_o s) + 1
                               | Inr s \<Rightarrow> 2 * (81 - sd_q_o s))", goal_cases)
  case 1
  show ?case by simp
next
  case 2
  then show ?case by (auto simp: assign_def dest!: eliminate_peers_q_o [OF sym])
next
  case 3
  then show ?case by auto
next
  case (4 s i s1 d r s2)
  then show ?case by (auto dest!: mark_q_o [OF sym])
qed

declare mark_pops.simps [simp del] drain_pops.simps [simp del]

text \<open>
  The grids that \<open>SuDoKu__mark\<close> is called on: the grid after \<open>reset\<close>, the grid after
  a call of \<open>mark\<close> that returned 0, and a copy of such a grid in a workspace slot.
\<close>

inductive searching :: "sudoku \<Rightarrow> bool" where
  start: "searching (reset s)"
| step: "searching s \<Longrightarrow> i < 81 \<Longrightarrow> 1 \<le> d \<Longrightarrow> d \<le> 32 \<Longrightarrow> mark s i d = (None, s')
          \<Longrightarrow> searching s'"
| snapshot: "searching s \<Longrightarrow> searching (copy s t)"

lemma shift_ok: "1 \<le> d \<Longrightarrow> d \<le> 32 \<Longrightarrow> \<not> bad_shift (d :: 8 word)"
  by (auto simp: bad_shift_def word_le_nat_alt word_less_nat_alt)

lemma settled_copy_eq: "settled (copy s t) = settled s"
proof -
  have "sane (copy s t) = sane s"
    by (simp add: sane_def filled_cells_def low_cells_def)
  moreover have "queue_ok (copy s t) X = queue_ok s X" for X
    by (simp add: queue_ok_def pending_def)
  moreover have "peers_ok (copy s t) x D = peers_ok s x D" for x D
    by (simp add: peers_ok_def)
  moreover have "distinct_peers (copy s t) = distinct_peers s"
    by (simp add: distinct_peers_def)
  ultimately show ?thesis by (simp add: settled_def good_def)
qed

lemma settled_copy: "settled s \<Longrightarrow> settled (copy s t)"
  by (simp add: settled_copy_eq)

lemma searching_settled: "searching s \<Longrightarrow> settled s"
proof (induction rule: searching.induct)
  case (start s)
  show ?case by (rule settled_reset)
next
  case (step s i d s')
  from settled_mark(2) [OF step.IH step.hyps(2) shift_ok [OF step.hyps(3,4)] step.hyps(5)]
  show ?case by simp
next
  case (snapshot s t)
  then show ?case by (simp add: settled_copy)
qed

lemma pops_single:
  "sane s \<Longrightarrow> queue_ok s {i} \<Longrightarrow> peers_ok s 0 UNIV \<Longrightarrow> distinct_peers s \<Longrightarrow> i < 81
    \<Longrightarrow> \<not> bad_shift d \<Longrightarrow> (j, m) \<in> set (mark_pops s i d)
    \<Longrightarrow> j < 81 \<and> popcount m = 1 \<and> (\<forall>k. bit m k \<longrightarrow> k < 9)"
  "good s \<Longrightarrow> (j, m) \<in> set (drain_pops s)
    \<Longrightarrow> j < 81 \<and> popcount m = 1 \<and> (\<forall>k. bit m k \<longrightarrow> k < 9)"
proof (induction s i d and s rule: mark_pops_drain_pops.induct)
  case (1 s i d)
  note pre = "1.prems"(1-6)
  show ?case
  proof (cases "81 \<le> i \<or> sd_v s ! i = d \<or> bad_shift d \<or> \<not> has_digit (sd_p s ! i) d")
    case True
    with "1.prems"(7) show ?thesis by (simp add: mark_pops.simps)
  next
    case False
    obtain r s1 where e: "eliminate_peers (assign s i d) (take 20 (relations i)) d = (r, s1)"
      by (cases "eliminate_peers (assign s i d) (take 20 (relations i)) d")
    show ?thesis
    proof (cases r)
      case None
      from False have h: "has_digit (sd_p s ! i) d" by simp
      from mark_mid(2) [OF pre(1-6) h e] None have g: "good s1" by simp
      from "1.prems"(7) False e None have "(j, m) \<in> set (drain_pops s1)"
        by (simp add: mark_pops.simps)
      from "1.IH" [OF False _ _ g this] e None show ?thesis by simp
    next
      case (Some a)
      with "1.prems"(7) False e show ?thesis by (simp add: mark_pops.simps)
    qed
  qed
next
  case (2 s)
  let ?i = "unat (sd_q s ! sd_q_o s)"
  let ?s1 = "s\<lparr>sd_q_o := sd_q_o s + 1\<rparr>"
  let ?d = "of_nat (ffs (sd_p ?s1 ! ?i)) :: 8 word"
  note g = "2.prems"(1)
  then have sane: "sane s" by (simp add: good_def)
  show ?case
  proof (cases "sd_q_o s < sd_q_i s \<and> sd_q_o s < 81 \<and> ?i < 81")
    case False
    with "2.prems"(2) show ?thesis by (simp add: drain_pops.simps)
  next
    case True
    then have lt: "sd_q_o s < sd_q_i s" by simp
    note pm = pop_mid [OF g lt]
    from sane pm(2) have bits: "\<forall>k. bit (sd_p s ! ?i) k \<longrightarrow> k < 9" by (simp add: sane_def)
    note sb = single_bit [OF pm(4) bits]
    obtain r s2 where m: "mark ?s1 ?i ?d = (r, s2)" by (cases "mark ?s1 ?i ?d")
    from "2.prems"(2) True m
    consider "(j, m) = (?i, sd_p s ! ?i)" | "(j, m) \<in> set (mark_pops ?s1 ?i ?d)"
      | "r = None" "(j, m) \<in> set (drain_pops s2)"
      by (cases r) (auto simp: drain_pops.simps [of s] Let_def)
    then show ?thesis
    proof cases
      case 1
      with pm(2,4) bits show ?thesis by simp
    next
      case 2
      have d: "\<not> bad_shift ?d" using sb(4) by simp
      from "2.IH"(1) [OF True refl refl refl pm(5-8) pm(2) d 2] show ?thesis .
    next
      case 3
      have d: "\<not> bad_shift ?d" using sb(4) by simp
      from mark_drain_good(1) [OF pm(5-8) pm(2) d m] 3(1) have g2: "good s2" by simp
      from "2.IH"(2) [OF True refl refl refl _ refl g2 3(2)] m 3(1) show ?thesis by simp
    qed
  qed
qed

subsection \<open>The leaf recorded by a contradiction\<close>

lemma eliminate_e: "eliminate s j d = (r, s') \<Longrightarrow> sd_e s' = sd_e s"
  by (auto simp: eliminate_def Let_def fail_leaf_def split: if_splits)

lemma eliminate_peers_e: "eliminate_peers s js d = (r, s') \<Longrightarrow> sd_e s' = sd_e s"
  by (induction js arbitrary: s) (auto simp: eliminate_e split: prod.splits option.splits)

lemma mark_e:
  assumes "mark s i d = (r, s')"
  shows "sd_e s' = sd_e s"
proof -
  have "True \<and> sd_e s' = sd_e s"
  proof (rule mark_drain_steps(1) [where I = "\<lambda>_. True" and R = "\<lambda>a b. sd_e b = sd_e a"])
    show "True \<and> sd_e s' = sd_e s" if "eliminate s j d = (r, s')" for s j d r s'
      using eliminate_e [OF that] by simp
    show "mark s i d = (r, s')" by fact
  qed (simp_all add: assign_def fail_leaf_def)
  then show ?thesis by simp
qed

definition minus_leaf :: "sudoku \<Rightarrow> bool" where
  "minus_leaf s \<longleftrightarrow> (\<exists>k. sd_g s = Some (Leaf k CHR ''-''))"

lemma eliminate_leaf:
  "eliminate s j d = (Some Contradiction, s') \<Longrightarrow> sd_e s \<Longrightarrow> minus_leaf s'"
  by (auto simp: eliminate_def Let_def fail_leaf_def minus_leaf_def split: if_splits)

lemma eliminate_peers_leaf:
  "eliminate_peers s js d = (Some Contradiction, s') \<Longrightarrow> sd_e s \<Longrightarrow> minus_leaf s'"
proof (induction js arbitrary: s)
  case Nil
  then show ?case by simp
next
  case (Cons j js)
  obtain r1 s1 where e1: "eliminate s j d = (r1, s1)" by (cases "eliminate s j d")
  show ?case
  proof (cases r1)
    case None
    with Cons.prems e1 eliminate_e [OF e1] Cons.IH [of s1] show ?thesis by simp
  next
    case (Some a)
    with Cons.prems e1 eliminate_leaf [of s j d s1] show ?thesis by simp
  qed
qed

lemma mark_drain_leaf:
  "mark s i d = (Some Contradiction, s') \<Longrightarrow> sd_e s \<Longrightarrow> minus_leaf s'"
  "drain s = (Some Contradiction, s') \<Longrightarrow> sd_e s \<Longrightarrow> minus_leaf s'"
proof (induction s i d and s arbitrary: s' and s' rule: mark_drain.induct)
  case (1 s i d)
  from "1.prems"(1) show ?case
  proof (cases rule: mark_cases)
    case forbidden
    with "1.prems"(2) show ?thesis by (simp add: fail_leaf_def minus_leaf_def)
  next
    case (cascade x)
    with eliminate_peers_leaf [of "assign s i d" _ d s'] "1.prems"(2) show ?thesis
      by (simp add: assign_def)
  next
    case (drained s1)
    from eliminate_peers_e [OF drained(5)] "1.prems"(2) have e1: "sd_e s1"
      by (simp add: assign_def)
    have "\<not> 81 \<le> i" using drained(1) by simp
    from "1.IH" [OF this drained(2) drained(3) _ drained(5) [symmetric] refl drained(6) e1]
      drained(4)
    show ?thesis by simp
  qed simp_all
next
  case (2 s)
  let ?s1 = "s\<lparr>sd_q_o := sd_q_o s + 1\<rparr>"
  let ?i = "unat (sd_q s ! sd_q_o s)"
  from "2.prems"(1) show ?case
  proof (cases rule: drain_cases)
    case (failed x)
    have n: "\<not> 81 \<le> sd_q_o s" "\<not> 81 \<le> ?i" using failed by simp_all
    from failed(4,5) have m: "mark ?s1 ?i (of_nat (ffs (sd_p ?s1 ! ?i))) = (Some Contradiction, s')"
      by simp
    from "2.IH"(1) [OF failed(1) n(1) refl refl n(2) m] "2.prems"(2) show ?thesis by simp
  next
    case (continued s2)
    have n: "\<not> 81 \<le> sd_q_o s" "\<not> 81 \<le> ?i" using continued by simp_all
    have m: "mark ?s1 ?i (of_nat (ffs (sd_p ?s1 ! ?i))) = (None, s2)" using continued(4) by simp
    from mark_e [OF m] "2.prems"(2) have e2: "sd_e s2" by simp
    from "2.IH"(2) [OF continued(1) n(1) refl refl n(2) _ refl continued(5) e2] m
    show ?thesis by simp
  qed simp_all
qed

subsection \<open>The return codes of the propagation\<close>

lemma eliminate_status: "eliminate s j d = (Some x, s') \<Longrightarrow> x = Contradiction \<or> x = Undefined"
  by (auto simp: eliminate_def Let_def split: if_splits)

lemma eliminate_peers_status:
  "eliminate_peers s js d = (Some x, s') \<Longrightarrow> x = Contradiction \<or> x = Undefined"
  by (induction js arbitrary: s)
    (auto dest: eliminate_status split: prod.splits option.splits)

lemma mark_drain_status:
  "mark s i d = (Some x, s') \<Longrightarrow> x = Contradiction \<or> x = Undefined"
  "drain s = (Some x, s') \<Longrightarrow> x = Contradiction \<or> x = Undefined"
proof (induction s i d and s arbitrary: s' and s' rule: mark_drain.induct)
  case (1 s i d)
  from "1.prems"(1) show ?case
  proof (cases rule: mark_cases)
    case (cascade y)
    with eliminate_peers_status show ?thesis by blast
  next
    case (drained s1)
    have "\<not> 81 \<le> i" using drained(1) by simp
    from "1.IH" [OF this drained(2) drained(3) _ drained(5) [symmetric] refl drained(6)]
      drained(4)
    show ?thesis by simp
  qed simp_all
next
  case (2 s)
  let ?s1 = "s\<lparr>sd_q_o := sd_q_o s + 1\<rparr>"
  let ?i = "unat (sd_q s ! sd_q_o s)"
  from "2.prems"(1) show ?case
  proof (cases rule: drain_cases)
    case (failed y)
    have n: "\<not> 81 \<le> sd_q_o s" "\<not> 81 \<le> ?i" using failed by simp_all
    from failed(4,5) have m: "mark ?s1 ?i (of_nat (ffs (sd_p ?s1 ! ?i))) = (Some x, s')"
      by simp
    from "2.IH"(1) [OF failed(1) n(1) refl refl n(2) m] show ?thesis .
  next
    case (continued s2)
    have n: "\<not> 81 \<le> sd_q_o s" "\<not> 81 \<le> ?i" using continued by simp_all
    have m: "mark ?s1 ?i (of_nat (ffs (sd_p ?s1 ! ?i))) = (None, s2)" using continued(4) by simp
    from "2.IH"(2) [OF continued(1) n(1) refl refl n(2) _ refl continued(5)] m
    show ?thesis by simp
  qed simp_all
qed

subsection \<open>The cell chosen for branching\<close>

lemma popcount_le_9:
  assumes "\<forall>k. bit w k \<longrightarrow> k < 9"
  shows "popcount w \<le> 9"
proof -
  from assms have "{k. bit w k} \<subseteq> {..<9}" by auto
  then have "card {k. bit w k} \<le> card {..<9::nat}" by (intro card_mono) simp_all
  then show ?thesis by (simp add: popcount_card)
qed

lemma settled_n: "settled s \<Longrightarrow> sd_n s \<le> 81"
proof -
  assume "settled s"
  then have "sd_n s = card (filled_cells s)" by (simp add: settled_def good_def sane_def)
  moreover have "card (filled_cells s) \<le> card {..<81::nat}"
    by (intro card_mono) (auto simp: filled_cells_def)
  ultimately show ?thesis by simp
qed

lemma settled_full: "settled s \<Longrightarrow> sd_n s = 81 \<Longrightarrow> k < 81 \<Longrightarrow> sd_v s ! k \<noteq> 0"
proof -
  assume a: "settled s" "sd_n s = 81" "k < 81"
  then have "card (filled_cells s) = card {..<81::nat}"
    by (simp add: settled_def good_def sane_def)
  moreover have "filled_cells s \<subseteq> {..<81}" by (auto simp: filled_cells_def)
  ultimately have "filled_cells s = {..<81}" by (intro card_subset_eq) simp_all
  with a(3) show ?thesis by (auto simp: filled_cells_def)
qed

lemma settled_search_min:
  assumes "settled s" "sd_n s \<noteq> 81"
  shows "search_min s < 81" and "sd_v s ! search_min s = 0"
proof -
  from assms(1) have sane: "sane s" by (simp add: settled_def good_def)
  have "\<exists>k<81. sd_v s ! k = 0"
  proof (rule ccontr)
    assume "\<not> (\<exists>k<81. sd_v s ! k = 0)"
    then have "filled_cells s = {..<81}" by (auto simp: filled_cells_def)
    with sane assms(2) show False by (simp add: sane_def)
  qed
  then obtain k where k: "k < 81" "sd_v s ! k = 0" by blast
  from sane k(1) have "unat (sd_c s ! k) \<le> 9"
    using popcount_le_9 [of "sd_p s ! k"] by (simp add: sane_def)
  then have "sd_c s ! k < 10" by (simp add: word_less_nat_alt)
  with k search_min_cases [of s] show "search_min s < 81" and "sd_v s ! search_min s = 0"
    by auto
qed

subsection \<open>The states that a call of mark passes through\<close>
























lemma searching_mark_clues:
  "searching s \<Longrightarrow> set js \<subseteq> {..<81} \<Longrightarrow> mark_clues s js = (None, s') \<Longrightarrow> searching s'"
proof (induction js arbitrary: s)
  case Nil
  then show ?case by simp
next
  case (Cons j js)
  show ?case
  proof (cases "0 < sd_o s ! j")
    case False
    with Cons show ?thesis by simp
  next
    case True
    obtain r s1 where m: "mark s j (sd_o s ! j) = (r, s1)" by (cases "mark s j (sd_o s ! j)")
    with Cons.prems(3) True have r: "r = None" and c: "mark_clues s1 js = (None, s')"
      by (cases r; simp)+
    from m r have "mark s j (sd_o s ! j) = (None, s1)" by simp
    then have "searching s1"
    proof (cases rule: mark_cases)
      case noop
      with Cons.prems(1) show ?thesis by simp
    next
      case (drained s2)
      from Cons.prems(2) have j: "j < 81" by simp
      from True have 1: "1 \<le> sd_o s ! j" by (simp add: word_le_nat_alt word_less_nat_alt)
      from drained(3) have 2: "sd_o s ! j \<le> 32"
        by (auto simp: bad_shift_def word_le_nat_alt word_less_nat_alt)
      from searching.step [OF Cons.prems(1) j 1 2] m r show ?thesis by simp
    qed simp_all
    from Cons.IH [OF this _ c] Cons.prems(2) show ?thesis by simp
  qed
qed

text \<open>
  C5. \<open>SuDoKu__mark\<close> is only ever called on a grid that is \<open>searching\<close>: the grid
  after \<open>reset\<close>, the grid after a call of \<open>mark\<close> that returned 0, or a workspace copy
  of such a grid (the loops over the clues stop at the first failure, the search marks
  a fresh copy for every candidate, and the generator resets after a failure). In every
  such call, with a digit in 1..32, each cell popped from the forced queue (by the
  loop of the call or by one of the calls it makes) has a mask with exactly one bit set
  at the moment it is popped: \<open>ffs\<close> of the mask is a digit in 1..9, a candidate of the
  cell, and the call never runs into an out-of-range index or shift.
\<close>

theorem forced_single:
  assumes "searching s" and "i < 81" and "1 \<le> d" and "d \<le> 32"
  shows "fst (mark s i d) \<noteq> Some Undefined
    \<and> (\<forall>(j, m) \<in> set (mark_pops s i d). j < 81 \<and> popcount m = 1
          \<and> 1 \<le> ffs m \<and> ffs m \<le> 9 \<and> has_digit m (of_nat (ffs m)))"
proof -
  from assms(1) have st: "settled s" by (rule searching_settled)
  note b = shift_ok [OF assms(3,4)]
  obtain r s' where m: "mark s i d = (r, s')" by (cases "mark s i d")
  from settled_mark(1) [OF st assms(2) b m] m have 1: "fst (mark s i d) \<noteq> Some Undefined"
    by simp
  from st have g: "sane s" "queue_ok s {}" "peers_ok s 0 UNIV" "distinct_peers s"
    and e: "sd_q_o s = sd_q_i s"
    by (simp_all add: settled_def good_def)
  from e have "pending s = []" by (simp add: pending_def)
  with g(2) have q: "queue_ok s {i}" by (auto simp: queue_ok_def)
  have "j < 81 \<and> popcount m = 1 \<and> 1 \<le> ffs m \<and> ffs m \<le> 9 \<and> has_digit m (of_nat (ffs m))"
    if "(j, m) \<in> set (mark_pops s i d)" for j m
  proof -
    from pops_single(1) [OF g(1) q g(3,4) assms(2) b that]
    have *: "j < 81" "popcount m = 1" "\<forall>k. bit m k \<longrightarrow> k < 9" by simp_all
    from single_bit [OF *(2,3)] * show ?thesis by simp
  qed
  with 1 show ?thesis by auto
qed

text \<open>The result of a call of \<open>mark\<close> with the cells it pops, for the example.\<close>

definition pops_probe :: "sudoku \<Rightarrow> nat \<Rightarrow> 8 word \<Rightarrow> status \<times> (nat \<times> 16 word) list" where
  "pops_probe s i d = (fst (mark s i d), mark_pops s i d)"

lemma cascade_clues:
  "fst (mark_clues (reset (snd (from_string empty_grid cascade_string))) [0..<81]) = None"
  by code_simp

lemma cascade_pops: "pops_probe cascade_grid 9 8 = (Some Contradiction, [(0, 256)])"
  by code_simp

lemma cascade_searching: "searching cascade_grid"
proof -
  let ?s = "reset (snd (from_string empty_grid cascade_string))"
  have "mark_clues ?s [0..<81] = (None, cascade_grid)"
    using cascade_clues by (simp add: cascade_grid_def prod_eq_iff)
  moreover have "set [0..<81] \<subseteq> {..<81::nat}" by auto
  ultimately show ?thesis using searching_mark_clues [OF searching.start] by blast
qed

theorem forced_single_witness:
  "searching cascade_grid \<and> (9 :: nat) < 81 \<and> (1 :: 8 word) \<le> 8 \<and> (8 :: 8 word) \<le> 32
   \<and> fst (mark cascade_grid 9 8) = Some Contradiction
   \<and> mark_pops cascade_grid 9 8 = [(0, 256)]
   \<and> popcount (256 :: 16 word) = 1 \<and> ffs (256 :: 16 word) = 9
   \<and> has_digit (256 :: 16 word) (of_nat (ffs (256 :: 16 word)))"
proof -
  from cascade_pops have p: "fst (mark cascade_grid 9 8) = Some Contradiction"
    "mark_pops cascade_grid 9 8 = [(0, 256)]"
    by (simp_all add: pops_probe_def)
  have f: "ffs (256 :: 16 word) = 9" by code_simp
  from forced_single [OF cascade_searching, of 9 8] p f cascade_searching
  show ?thesis by simp
qed

section \<open>The solutions of the search\<close>

text \<open>
  A grid as \<open>SuDoKu_get2darray\<close> returns it: nine rows of nine integers. Cell \<open>k\<close> is in
  row \<open>k div 9\<close> and column \<open>k mod 9\<close>.
\<close>

definition cell_of :: "int list list \<Rightarrow> nat \<Rightarrow> int" where
  "cell_of g k = g ! (k div 9) ! (k mod 9)"

text \<open>All 81 cells hold a digit 1..9.\<close>

definition complete :: "int list list \<Rightarrow> bool" where
  "complete g \<longleftrightarrow> length g = 9 \<and> (\<forall>row \<in> set g. length row = 9)
     \<and> (\<forall>k<81. 1 \<le> cell_of g k \<and> cell_of g k \<le> 9)"

text \<open>No cell has the digit of one of its peers.\<close>

definition peer_free :: "int list list \<Rightarrow> bool" where
  "peer_free g \<longleftrightarrow> (\<forall>i<81. \<forall>j \<in> set (relations i). cell_of g j \<noteq> cell_of g i)"

text \<open>The grid has the digit of every non-zero entry of the array \<open>a\<close>.\<close>

definition agrees :: "8 word list \<Rightarrow> int list list \<Rightarrow> bool" where
  "agrees a g \<longleftrightarrow> (\<forall>k<81. a ! k \<noteq> 0 \<longrightarrow> cell_of g k = uint (a ! k))"

definition solves :: "sudoku \<Rightarrow> int list list \<Rightarrow> bool" where
  "solves s g \<longleftrightarrow> complete g \<and> peer_free g \<and> agrees (sd_v s) g"

lemma cell_of_get2darray:
  assumes "k < 81"
  shows "cell_of (get2darray a) k = uint (a ! k)"
proof -
  from assms have 1: "k div 9 < 9" by simp
  have 2: "k mod 9 < 9" by simp
  have 3: "9 * (k div 9) + k mod 9 = k" by simp
  have "get2darray a ! (k div 9) = map (\<lambda>j. uint (a ! (9 * (k div 9) + j))) [0..<9]"
    unfolding get2darray_def using 1 by (subst nth_map) (simp_all del: upt_rec_numeral)
  then have "cell_of (get2darray a) k = uint (a ! (9 * (k div 9) + k mod 9))"
    unfolding cell_of_def using 2 by (simp del: upt_rec_numeral)
  with 3 show ?thesis by simp
qed

lemma complete_get2darray:
  assumes "\<forall>k<81. a ! k \<noteq> 0 \<and> a ! k \<le> 9"
  shows "complete (get2darray a)"
proof -
  have "1 \<le> uint (a ! k) \<and> uint (a ! k) \<le> 9" if "k < 81" for k
  proof -
    from assms that have "a ! k \<noteq> 0" "a ! k \<le> 9" by simp_all
    then have "uint (a ! k) \<noteq> 0" "uint (a ! k) \<le> 9"
      by (simp_all add: word_le_def uint_0_iff)
    moreover have "0 \<le> uint (a ! k)" by simp
    ultimately show ?thesis by linarith
  qed
  moreover have "length (get2darray a) = 9" by (simp add: get2darray_def)
  moreover have "\<forall>row \<in> set (get2darray a). length row = 9" by (auto simp: get2darray_def)
  ultimately show ?thesis by (simp add: complete_def cell_of_get2darray)
qed

lemma settled_solves:
  assumes "settled s" "sd_n s = 81"
  shows "solves s (get2darray (sd_v s))"
proof -
  from assms(1) have sane: "sane s" and dp: "distinct_peers s" by (simp_all add: settled_def good_def)
  have "sd_v s ! k \<noteq> 0 \<and> sd_v s ! k \<le> 9" if "k < 81" for k
    using that settled_full [OF assms] sane by (simp add: sane_def)
  then have c: "complete (get2darray (sd_v s))" by (intro complete_get2darray) simp
  have "cell_of (get2darray (sd_v s)) j \<noteq> cell_of (get2darray (sd_v s)) i"
    if "i < 81" "j \<in> set (relations i)" for i j
  proof -
    from that(2) have j: "j < 81" "peer i j" by (simp_all add: relations_peer)
    from settled_full [OF assms that(1)] dp that(1) j have "sd_v s ! j \<noteq> sd_v s ! i"
      by (simp add: distinct_peers_def)
    then have "uint (sd_v s ! j) \<noteq> uint (sd_v s ! i)" by (simp add: word_uint_eq_iff)
    with that(1) j(1) show ?thesis by (simp add: cell_of_get2darray)
  qed
  then have p: "peer_free (get2darray (sd_v s))" by (simp add: peer_free_def)
  have "agrees (sd_v s) (get2darray (sd_v s))" by (simp add: agrees_def cell_of_get2darray)
  with c p show ?thesis by (simp add: solves_def)
qed

lemma agrees_extends:
  assumes "\<forall>k<81. a ! k \<noteq> 0 \<longrightarrow> b ! k = a ! k" "agrees b g"
  shows "agrees a g"
  using assms by (auto simp: agrees_def)

lemma solves_extends: "extends s t \<Longrightarrow> solves t g \<Longrightarrow> solves s g"
  unfolding solves_def extends_def using agrees_extends by blast

lemma solves_g [simp]: "solves (s\<lparr>sd_g := x\<rparr>) g = solves s g"
  by (simp add: solves_def)

lemma settled_g [simp]: "settled (s\<lparr>sd_g := x\<rparr>) = settled s"
proof -
  have "sane (s\<lparr>sd_g := x\<rparr>) = sane s"
    by (simp add: sane_def filled_cells_def low_cells_def)
  moreover have "queue_ok (s\<lparr>sd_g := x\<rparr>) X = queue_ok s X" for X
    by (simp add: queue_ok_def pending_def)
  moreover have "peers_ok (s\<lparr>sd_g := x\<rparr>) y D = peers_ok s y D" for y D
    by (simp add: peers_ok_def)
  moreover have "distinct_peers (s\<lparr>sd_g := x\<rparr>) = distinct_peers s"
    by (simp add: distinct_peers_def)
  ultimately show ?thesis by (simp add: settled_def good_def)
qed

lemma copy_g [simp]: "copy (s\<lparr>sd_g := x\<rparr>) t = copy s t"
  by (simp add: copy_def)

lemma digit_ok: "0 < d \<Longrightarrow> d < 10 \<Longrightarrow> \<not> bad_shift (of_nat d :: 8 word)"
proof -
  assume d: "0 < d" "d < 10"
  then have "unat (of_nat d :: 8 word) = d" by (simp add: unat_of_nat)
  with d show ?thesis by (auto simp: bad_shift_def word_less_nat_alt unat_eq_0)
qed

section \<open>The contradictions of the search\<close>

text \<open>The number of \<open>'-'\<close> leaves of a decision tree.\<close>

fun minus_leaves :: "graph \<Rightarrow> nat" where
  "minus_leaves PyNone = 0"
| "minus_leaves (Leaf k c) = (if c = CHR ''-'' then 1 else 0)"
| "minus_leaves (Node k gs) = sum_list (map minus_leaves gs)"

text \<open>
  The number of calls of \<open>SuDoKu__mark\<close> that return the contradiction in a run of
  \<open>SuDoKu__resolve_aux\<close>, those of the calls it makes to itself included. The recursion
  is that of \<open>resolve_aux\<close> and \<open>resolve_loop\<close>, with the same early returns.
\<close>

function resolve_aux_fails :: "(nat \<Rightarrow> sudoku) \<Rightarrow> sudoku \<Rightarrow> nat"
  and resolve_loop_fails :: "(nat \<Rightarrow> sudoku) \<Rightarrow> sudoku \<Rightarrow> nat \<Rightarrow> nat \<Rightarrow> nat" where
  "resolve_aux_fails ws s =
    (if sd_n s = 81 then 0
     else if 81 < sd_n s then 0
     else resolve_loop_fails ws s (search_min s) 1)"
| "resolve_loop_fails ws s i d =
    (if d < 10 then
       (if 81 \<le> i then 0
        else if has_digit (sd_p s ! i) (of_nat d) then
          (case mark (copy s (ws (sd_n s))) i (of_nat d) of
             (Some r, t) \<Rightarrow>
               (if r = Contradiction then
                  (if sd_e s \<and> sd_g t = None then 1
                   else 1 + resolve_loop_fails ws s i (d + 1))
                else 0)
           | (None, t) \<Rightarrow>
               (case resolve_aux ws t of
                  (Some r, t', sres) \<Rightarrow> resolve_aux_fails ws t
                | (None, t', sres) \<Rightarrow>
                    (if sd_e s \<and> sd_g t' = None then resolve_aux_fails ws t
                     else resolve_aux_fails ws t + resolve_loop_fails ws s i (d + 1))))
        else resolve_loop_fails ws s i (d + 1))
     else 0)"
  by pat_completeness auto

termination resolve_aux_fails
proof (relation "inv_image (less_than <*lex*> less_than <*lex*> less_than)
     (\<lambda>x. case x of Inl (ws, s) \<Rightarrow> (81 - sd_n s, 1::nat, 0::nat)
         | Inr (ws, s, i, d) \<Rightarrow>
             (81 - sd_n s,
              if (81 \<le> i \<or> sd_v s ! i = 0) \<and> sd_n s < 81 \<and> 0 < d then 0 else 2, 10 - d))",
    goal_cases)
  case 1
  show ?case by (intro wf_inv_image wf_lex_prod wf_less_than)
next
  case (2 ws s)
  with search_min_cases [of s] show ?case by auto
qed (auto dest!: mark_copy_measure)

declare resolve_aux_fails.simps [simp del] resolve_loop_fails.simps [simp del]

lemma resolve_loop_fails_g [simp]:
  "resolve_loop_fails ws (s\<lparr>sd_g := x\<rparr>) i d = resolve_loop_fails ws s i d"
proof (induction "10 - d" arbitrary: d)
  case 0
  then show ?case by (simp add: resolve_loop_fails.simps)
next
  case (Suc n)
  then have "n = 10 - (d + 1)" by simp
  from Suc.hyps(1) [OF this]
  have ih: "resolve_loop_fails ws (s\<lparr>sd_g := x\<rparr>) i (Suc d) = resolve_loop_fails ws s i (Suc d)"
    by simp
  show ?case
    unfolding resolve_loop_fails.simps [of ws "s\<lparr>sd_g := x\<rparr>" i d]
      resolve_loop_fails.simps [of ws s i d]
    by (auto simp: ih split: prod.splits option.splits)
qed

text \<open>
  The search from a grid in which the propagation has come to rest: it returns 0, every
  grid it adds to the list is a solution that extends the grid, and with tracking on the
  tree it leaves has one \<open>'-'\<close> leaf for each contradiction of the search.
\<close>

lemma resolve_settled:
  "settled s \<Longrightarrow> resolve_aux ws s = (r, s', res) \<Longrightarrow>
     r = None \<and> (\<forall>g \<in> set res. solves s g)
       \<and> (sd_e s \<longrightarrow> (\<exists>gr. sd_g s' = Some gr \<and> minus_leaves gr = resolve_aux_fails ws s))"
  "settled s \<Longrightarrow> i < 81 \<Longrightarrow> 0 < d
     \<Longrightarrow> (sd_e s \<longrightarrow> sd_g s = Some (Node (int (sd_n s)) sg))
     \<Longrightarrow> resolve_loop ws s i d sg res = (r, s', res') \<Longrightarrow>
     r = None \<and> (\<exists>xs. res' = res @ xs \<and> (\<forall>g \<in> set xs. solves s g))
       \<and> (sd_e s \<longrightarrow> (\<exists>sg'. sd_g s' = Some (Node (int (sd_n s)) sg')
             \<and> sum_list (map minus_leaves sg')
                 = sum_list (map minus_leaves sg) + resolve_loop_fails ws s i d))"
proof (induction ws s and ws s i d sg res arbitrary: r s' res and r s' res'
    rule: resolve_aux_resolve_loop.induct)
  case (1 ws s)
  note st = "1.prems"(1) and run = "1.prems"(2)
  show ?case
  proof (cases "sd_n s = 81")
    case True
    with run have "r = None" "res = [get2darray (sd_v s)]"
      "sd_e s \<longrightarrow> sd_g s' = Some (Leaf (int (sd_n s)) CHR ''+'')"
      by (auto simp: resolve_aux.simps)
    moreover from True have "resolve_aux_fails ws s = 0" by (simp add: resolve_aux_fails.simps)
    ultimately show ?thesis using settled_solves [OF st True] by simp
  next
    case False
    from settled_n [OF st] have n: "\<not> 81 < sd_n s" by simp
    let ?s0 = "if sd_e s then s\<lparr>sd_g := Some (Node (int (sd_n s)) [])\<rparr> else s"
    from run False n have run': "resolve_loop ws ?s0 (search_min s) 1 [] [] = (r, s', res)"
      by (simp add: resolve_aux.simps)
    have s0: "settled ?s0" using st by simp
    have g0: "sd_e ?s0 \<longrightarrow> sd_g ?s0 = Some (Node (int (sd_n ?s0)) [])" by simp
    have one: "0 < (1 :: nat)" by simp
    from "1.IH" [OF False n s0 settled_search_min(1) [OF st False] one g0 run']
    have q: "r = None" "\<exists>xs. res = [] @ xs \<and> (\<forall>g \<in> set xs. solves ?s0 g)"
      "sd_e ?s0 \<longrightarrow> (\<exists>sg'. sd_g s' = Some (Node (int (sd_n ?s0)) sg')
             \<and> sum_list (map minus_leaves sg')
                 = sum_list (map minus_leaves []) + resolve_loop_fails ws ?s0 (search_min s) 1)"
      by blast+
    from False n have f: "resolve_aux_fails ws s = resolve_loop_fails ws s (search_min s) 1"
      by (simp add: resolve_aux_fails.simps)
    from q(2) have sol: "\<forall>g \<in> set res. solves s g" by (auto split: if_splits)
    have "\<exists>gr. sd_g s' = Some gr \<and> minus_leaves gr = resolve_aux_fails ws s" if "sd_e s"
    proof -
      from q(3) that obtain sg' where "sd_g s' = Some (Node (int (sd_n s)) sg')"
        "sum_list (map minus_leaves sg') = resolve_loop_fails ws s (search_min s) 1"
        by auto
      with f show ?thesis by simp
    qed
    with q(1) sol show ?thesis by simp
  qed
next
  case (2 ws s i d sg res)
  note st = "2.prems"(1) and i = "2.prems"(2) and d0 = "2.prems"(3) and g = "2.prems"(4)
    and run = "2.prems"(5)
  let ?c = "copy s (ws (sd_n s))"
  show ?case
  proof (cases "d < 10")
    case False
    with run have "r = None" "s' = s" "res' = res" by (simp_all add: resolve_loop.simps)
    moreover from False have "resolve_loop_fails ws s i d = 0"
      by (simp add: resolve_loop_fails.simps)
    ultimately show ?thesis using g by simp
  next
    case d: True
    have ni: "\<not> 81 \<le> i" using i by simp
    have d1: "0 < d + 1" by simp
    show ?thesis
    proof (cases "has_digit (sd_p s ! i) (of_nat d)")
      case False
      from run d ni False have run': "resolve_loop ws s i (d + 1) sg res = (r, s', res')"
        by (subst (asm) resolve_loop.simps) simp
      have f: "resolve_loop_fails ws s i d = resolve_loop_fails ws s i (d + 1)"
        using d ni False by (subst resolve_loop_fails.simps) simp
      from "2.IH"(6) [OF d ni False st i d1 g run'] f show ?thesis by simp
    next
      case h: True
      obtain x t where m: "mark ?c i (of_nat d) = (x, t)" by (cases "mark ?c i (of_nat d)")
      have sc: "settled ?c" using st by (simp add: settled_copy_eq)
      note b = digit_ok [OF d0 d]
      note sm = settled_mark [OF sc i b m]
      have et: "sd_e t = sd_e s" using mark_e [OF m] by simp
      show ?thesis
      proof (cases x)
        case None
        with sm(2) have stt: "settled t" by simp
        obtain xa t' sres where ra: "resolve_aux ws t = (xa, t', sres)"
          by (cases "resolve_aux ws t")
        from "2.IH"(1) [OF d ni h m [symmetric] None stt ra]
        have p: "xa = None" "\<forall>g \<in> set sres. solves t g"
          "sd_e t \<longrightarrow> (\<exists>gr. sd_g t' = Some gr \<and> minus_leaves gr = resolve_aux_fails ws t)"
          by blast+
        from sc have "sane ?c" by (simp add: settled_def good_def)
        from sane_mark_drain(1) [OF this m] have "extends ?c t" by simp
        then have "\<forall>k<81. sd_v s ! k \<noteq> 0 \<longrightarrow> sd_v t ! k = sd_v s ! k"
          by (simp add: extends_def)
        with p(2) have sol: "\<forall>g \<in> set sres. solves s g"
          unfolding solves_def using agrees_extends by blast
        show ?thesis
        proof (cases "sd_e s")
          case True
          with p(3) et obtain gr where gr: "sd_g t' = Some gr"
            "minus_leaves gr = resolve_aux_fails ws t" by auto
          let ?s2 = "s\<lparr>sd_g := Some (Node (int (sd_n s)) (sg @ [gr]))\<rparr>"
          from run d ni h m None ra p(1) True gr(1)
          have run': "resolve_loop ws ?s2 i (d + 1) (sg @ [gr]) (res @ sres) = (r, s', res')"
            by (subst (asm) resolve_loop.simps) simp
          have f: "resolve_loop_fails ws s i d
              = resolve_aux_fails ws t + resolve_loop_fails ws s i (d + 1)"
            using d ni h m None ra p(1) True gr(1) by (subst resolve_loop_fails.simps) simp
          have s2: "settled ?s2" using st by simp
          have g2: "sd_e ?s2 \<longrightarrow> sd_g ?s2 = Some (Node (int (sd_n ?s2)) (sg @ [gr]))" by simp
          from "2.IH"(2) [OF d ni h m [symmetric] None ra [symmetric] p(1) refl True gr(1)
              s2 i d1 g2 run']
          have q: "r = None" "\<exists>xs. res' = (res @ sres) @ xs \<and> (\<forall>g \<in> set xs. solves s g)"
            "\<exists>sg'. sd_g s' = Some (Node (int (sd_n s)) sg')
               \<and> sum_list (map minus_leaves sg')
                   = sum_list (map minus_leaves (sg @ [gr])) + resolve_loop_fails ws s i (d + 1)"
            using True by simp_all
          from q(2) sol have "\<exists>xs. res' = res @ xs \<and> (\<forall>g \<in> set xs. solves s g)"
            by (metis append_assoc set_append UnE)
          with q(1,3) f gr(2) show ?thesis by auto
        next
          case False
          from run d ni h m None ra p(1) False
          have run': "resolve_loop ws s i (d + 1) sg (res @ sres) = (r, s', res')"
            by (subst (asm) resolve_loop.simps) simp
          from "2.IH"(3) [OF d ni h m [symmetric] None ra [symmetric] p(1) refl False
              st i d1 g run']
          have q: "r = None" "\<exists>xs. res' = (res @ sres) @ xs \<and> (\<forall>g \<in> set xs. solves s g)"
            by simp_all
          from q(2) sol have "\<exists>xs. res' = res @ xs \<and> (\<forall>g \<in> set xs. solves s g)"
            by (metis append_assoc set_append UnE)
          with q(1) False show ?thesis by simp
        qed
      next
        case (Some e)
        with sm(1) mark_drain_status(1) [of ?c i "of_nat d" e t] m
        have e: "e = Contradiction" by auto
        show ?thesis
        proof (cases "sd_e s")
          case True
          from mark_drain_leaf(1) [of ?c i "of_nat d" t] m Some e True
          obtain k where k: "sd_g t = Some (Leaf k CHR ''-'')" by (auto simp: minus_leaf_def)
          let ?l = "Leaf k CHR ''-''"
          let ?s2 = "s\<lparr>sd_g := Some (Node (int (sd_n s)) (sg @ [?l]))\<rparr>"
          from run d ni h m Some e True k
          have run': "resolve_loop ws ?s2 i (d + 1) (sg @ [?l]) res = (r, s', res')"
            by (subst (asm) resolve_loop.simps) simp
          have f: "resolve_loop_fails ws s i d = 1 + resolve_loop_fails ws s i (d + 1)"
            using d ni h m Some e True k by (subst resolve_loop_fails.simps) simp
          have s2: "settled ?s2" using st by simp
          have g2: "sd_e ?s2 \<longrightarrow> sd_g ?s2 = Some (Node (int (sd_n ?s2)) (sg @ [?l]))" by simp
          from "2.IH"(4) [OF d ni h m [symmetric] Some e True k s2 i d1 g2 run']
          have q: "r = None" "\<exists>xs. res' = res @ xs \<and> (\<forall>g \<in> set xs. solves s g)"
            "\<exists>sg'. sd_g s' = Some (Node (int (sd_n s)) sg')
               \<and> sum_list (map minus_leaves sg')
                   = sum_list (map minus_leaves (sg @ [?l])) + resolve_loop_fails ws s i (d + 1)"
            using True by simp_all
          with f show ?thesis by auto
        next
          case False
          from run d ni h m Some e False
          have run': "resolve_loop ws s i (d + 1) sg res = (r, s', res')"
            by (subst (asm) resolve_loop.simps) simp
          from "2.IH"(5) [OF d ni h m [symmetric] Some e False st i d1 g run'] False
          show ?thesis by simp
        qed
      qed
    qed
  qed
qed

section \<open>Marking the clues\<close>

lemma mark_places:
  assumes "sane s" "j < 81" "mark s j d = (None, s')"
  shows "sd_v s' ! j = d"
  using assms(3)
proof (cases rule: mark_cases)
  case noop
  then show ?thesis by simp
next
  case (drained s1)
  from assms(1,2) have "holds j d (assign s j d)" by (simp add: holds_def assign_def sane_def)
  from holds_eliminate_peers [OF this drained(5)] have "holds j d s1" by simp
  from holds_mark_drain(2) [OF this drained(6)] show ?thesis by (simp add: holds_def)
qed simp_all

lemma mark_clues_status:
  "mark_clues s js = (Some x, s') \<Longrightarrow> x = Contradiction \<or> x = Undefined"
proof (induction js arbitrary: s)
  case Nil
  then show ?case by simp
next
  case (Cons j js)
  then show ?case
    by (auto dest: mark_drain_status(1) split: if_splits prod.splits option.splits)
qed

lemma mark_clues_settled:
  "settled s \<Longrightarrow> set js \<subseteq> {..<81} \<Longrightarrow> mark_clues s js = (None, s') \<Longrightarrow>
     settled s' \<and> extends s s' \<and> (\<forall>j \<in> set js. sd_o s ! j \<noteq> 0 \<longrightarrow> sd_v s' ! j = sd_o s ! j)"
proof (induction js arbitrary: s)
  case Nil
  then show ?case by (simp add: extends_refl)
next
  case (Cons j js)
  from Cons.prems(2) have j: "j < 81" and js: "set js \<subseteq> {..<81}" by simp_all
  show ?case
  proof (cases "0 < sd_o s ! j")
    case False
    then have z: "sd_o s ! j = 0" by (simp add: word_greater_zero_iff)
    from False Cons.prems(3) have "mark_clues s js = (None, s')" by simp
    from Cons.IH [OF Cons.prems(1) js this] z show ?thesis by simp
  next
    case True
    then have nz: "sd_o s ! j \<noteq> 0" by auto
    obtain r s1 where m: "mark s j (sd_o s ! j) = (r, s1)" by (cases "mark s j (sd_o s ! j)")
    with Cons.prems(3) True have r: "r = None" and c: "mark_clues s1 js = (None, s')"
      by (cases r; simp)+
    from Cons.prems(1) have sane: "sane s" by (simp add: settled_def good_def)
    from m r have m': "mark s j (sd_o s ! j) = (None, s1)" by simp
    have s1: "settled s1"
      using m'
    proof (cases rule: mark_cases)
      case noop
      with Cons.prems(1) show ?thesis by simp
    next
      case (drained s2)
      from settled_mark(2) [OF Cons.prems(1) j drained(3) m] r show ?thesis by simp
    qed simp_all
    from sane_mark_drain(1) [OF sane m] have e1: "extends s s1" by simp
    from mark_places [OF sane j m'] have v1: "sd_v s1 ! j = sd_o s ! j" .
    from Cons.IH [OF s1 js c] have ih: "settled s'" "extends s1 s'"
      "\<forall>k \<in> set js. sd_o s1 ! k \<noteq> 0 \<longrightarrow> sd_v s' ! k = sd_o s1 ! k" by simp_all
    from e1 have o1: "sd_o s1 = sd_o s" by (simp add: extends_def)
    from ih(2) v1 nz j have "sd_v s' ! j = sd_o s ! j" by (simp add: extends_def)
    with ih o1 extends_trans [OF e1 ih(2)] show ?thesis by simp
  qed
qed

text \<open>What \<open>SuDoKu_resolve\<close> does after the clues are marked.\<close>

lemma resolve_marked:
  assumes "mark_clues (reset s) [0..<81] = (None, s1)"
  obtains s2 res where
    "resolve_aux (if sd_e s then (\<lambda>k. (ws k)\<lparr>sd_g := None\<rparr>) else ws) s1 = (None, s2, res)"
    "resolve ws s = (Inr res, s2)" "settled s1" "\<forall>g \<in> set res. solves s1 g"
    "sd_e s \<longrightarrow> (\<exists>gr. sd_g s2 = Some gr
        \<and> minus_leaves gr
            = resolve_aux_fails (if sd_e s then (\<lambda>k. (ws k)\<lparr>sd_g := None\<rparr>) else ws) s1)"
    "\<forall>k<81. sd_o s ! k \<noteq> 0 \<longrightarrow> sd_v s1 ! k = sd_o s ! k"
proof -
  let ?ws = "if sd_e s then (\<lambda>k. (ws k)\<lparr>sd_g := None\<rparr>) else ws"
  have "set [0..<81] \<subseteq> {..<81::nat}" by auto
  from mark_clues_settled [OF settled_reset this assms]
  have s1: "settled s1" "extends (reset s) s1"
    and v: "\<forall>j \<in> set [0..<81]. sd_o (reset s) ! j \<noteq> 0 \<longrightarrow> sd_v s1 ! j = sd_o (reset s) ! j"
    by blast+
  from v have v': "\<forall>k<81. sd_o s ! k \<noteq> 0 \<longrightarrow> sd_v s1 ! k = sd_o s ! k"
    by (simp add: reset_def)
  from s1(2) have e1: "sd_e s1 = sd_e s" by (simp add: extends_def reset_def)
  obtain r s2 res where ra: "resolve_aux ?ws s1 = (r, s2, res)" by (cases "resolve_aux ?ws s1")
  from resolve_settled(1) [OF s1(1) ra] e1
  have p: "r = None" "\<forall>g \<in> set res. solves s1 g"
    "sd_e s \<longrightarrow> (\<exists>gr. sd_g s2 = Some gr \<and> minus_leaves gr = resolve_aux_fails ?ws s1)"
    by simp_all
  have e0: "sd_e (reset s) = sd_e s" by (simp add: reset_def)
  have "resolve ws s = (Inr res, s2)"
    using assms ra p(1) by (simp add: resolve_def Let_def e0)
  with ra p s1(1) v' show ?thesis using that by simp
qed

text \<open>
  The number of contradictions in the search of a run of \<open>SuDoKu_resolve\<close>: those met
  after the clues are marked.
\<close>

definition resolve_fails :: "(nat \<Rightarrow> sudoku) \<Rightarrow> sudoku \<Rightarrow> nat" where
  "resolve_fails ws s =
    (let s0 = reset s;
         ws' = (if sd_e s0 then (\<lambda>k. (ws k)\<lparr>sd_g := None\<rparr>) else ws)
     in case mark_clues s0 [0..<81] of
          (Some r, s1) \<Rightarrow> 0
        | (None, s1) \<Rightarrow> resolve_aux_fails ws' s1)"

text \<open>
  C6. \<open>resolve\<close> fails with an error exactly when marking the clues fails with that error;
  for the contradiction: exactly when marking the clues meets it. When the clues are
  marked without error, \<open>resolve\<close> returns its list of solutions whatever contradictions
  the search meets, and with tracking on each of them is a \<open>'-'\<close> leaf of the tree.
\<close>

theorem resolve_contradiction:
  "(fst (resolve ws s) = Inl Contradiction
      \<longleftrightarrow> fst (mark_clues (reset s) [0..<81]) = Some Contradiction)
   \<and> (\<forall>e. fst (resolve ws s) = Inl e \<longleftrightarrow> fst (mark_clues (reset s) [0..<81]) = Some e)
   \<and> (fst (mark_clues (reset s) [0..<81]) = None \<longrightarrow>
        (\<exists>res. fst (resolve ws s) = Inr res)
        \<and> (sd_e s \<longrightarrow> (\<exists>gr. sd_g (snd (resolve ws s)) = Some gr
              \<and> minus_leaves gr = resolve_fails ws s)))"
proof -
  obtain r1 s1 where mc: "mark_clues (reset s) [0..<81] = (r1, s1)"
    by (cases "mark_clues (reset s) [0..<81]")
  have e0: "sd_e (reset s) = sd_e s" by (simp add: reset_def)
  show ?thesis
  proof (cases r1)
    case None
    with mc have m: "mark_clues (reset s) [0..<81] = (None, s1)" by simp
    from m obtain s2 res where
      ra: "resolve_aux (if sd_e s then (\<lambda>k. (ws k)\<lparr>sd_g := None\<rparr>) else ws) s1 = (None, s2, res)"
      and rs: "resolve ws s = (Inr res, s2)"
      and tr: "sd_e s \<longrightarrow> (\<exists>gr. sd_g s2 = Some gr
        \<and> minus_leaves gr
            = resolve_aux_fails (if sd_e s then (\<lambda>k. (ws k)\<lparr>sd_g := None\<rparr>) else ws) s1)"
      by (rule resolve_marked)
    have "resolve_fails ws s
        = resolve_aux_fails (if sd_e s then (\<lambda>k. (ws k)\<lparr>sd_g := None\<rparr>) else ws) s1"
      using m by (simp add: resolve_fails_def Let_def e0)
    with tr rs m show ?thesis by simp
  next
    case (Some x)
    with mc have "resolve ws s = (Inl x, s1)" by (simp add: resolve_def Let_def)
    with mc Some show ?thesis by auto
  qed
qed

text \<open>
  C7. Every grid in the list that \<open>resolve\<close> returns is complete (nine rows of nine
  digits 1..9), no cell of it has the digit of one of its 20 peers, and it has the
  digit of every clue of the original grid.
\<close>

theorem resolve_solutions:
  assumes "fst (resolve ws s) = Inr res" and "g \<in> set res"
  shows "complete g \<and> peer_free g \<and> agrees (sd_o s) g"
proof -
  obtain r1 s1 where mc: "mark_clues (reset s) [0..<81] = (r1, s1)"
    by (cases "mark_clues (reset s) [0..<81]")
  have "r1 = None"
  proof (cases r1)
    case (Some x)
    with mc have "resolve ws s = (Inl x, s1)" by (simp add: resolve_def Let_def)
    with assms(1) show ?thesis by simp
  qed simp
  with mc have m: "mark_clues (reset s) [0..<81] = (None, s1)" by simp
  from m obtain s2 res2 where rs: "resolve ws s = (Inr res2, s2)"
    and sol: "\<forall>g \<in> set res2. solves s1 g"
    and v: "\<forall>k<81. sd_o s ! k \<noteq> 0 \<longrightarrow> sd_v s1 ! k = sd_o s ! k"
    by (rule resolve_marked)
  from rs assms have "solves s1 g" using sol by simp
  then have c: "complete g" "peer_free g" and a: "agrees (sd_v s1) g"
    by (simp_all add: solves_def)
  from a v have "agrees (sd_o s) g" by (auto simp: agrees_def)
  with c show ?thesis by simp
qed

section \<open>The uniqueness checker and the solver\<close>

text \<open>
  Two grids with the same arrays, cursors and fill counter: they differ at most in the
  tracking flag and the decision tree.
\<close>

definition same_cells :: "sudoku \<Rightarrow> sudoku \<Rightarrow> bool" where
  "same_cells a b \<longleftrightarrow> sd_o a = sd_o b \<and> sd_v a = sd_v b \<and> sd_p a = sd_p b \<and> sd_c a = sd_c b
     \<and> sd_q a = sd_q b \<and> sd_q_i a = sd_q_i b \<and> sd_q_o a = sd_q_o b \<and> sd_n a = sd_n b"

lemma same_cells_refl [simp]: "same_cells a a"
  by (simp add: same_cells_def)

lemma same_cells_copy [simp]: "same_cells (copy a x) (copy b y) = same_cells a b"
  by (simp add: same_cells_def)

lemma eliminate_same:
  assumes "same_cells a b" "eliminate a j d = (r, a')"
  shows "\<exists>b'. eliminate b j d = (r, b') \<and> same_cells a' b'"
  using assms
  by (auto simp: same_cells_def eliminate_def Let_def fail_leaf_def split: if_splits)

lemma eliminate_peers_same:
  "same_cells a b \<Longrightarrow> eliminate_peers a js d = (r, a')
     \<Longrightarrow> \<exists>b'. eliminate_peers b js d = (r, b') \<and> same_cells a' b'"
proof (induction js arbitrary: a b)
  case Nil
  then show ?case by simp
next
  case (Cons j js)
  obtain r1 a1 where e1: "eliminate a j d = (r1, a1)" by (cases "eliminate a j d")
  from eliminate_same [OF Cons.prems(1) e1] obtain b1
    where b1: "eliminate b j d = (r1, b1)" "same_cells a1 b1" by blast
  show ?case
  proof (cases r1)
    case None
    with e1 Cons.prems(2) have "eliminate_peers a1 js d = (r, a')" by simp
    from Cons.IH [OF b1(2) this] b1(1) None show ?thesis by simp
  next
    case (Some x)
    with e1 Cons.prems(2) b1 show ?thesis by auto
  qed
qed

lemma assign_same: "same_cells a b \<Longrightarrow> same_cells (assign a i d) (assign b i d)"
  by (simp add: same_cells_def assign_def)

lemma mark_drain_same:
  "same_cells a b \<Longrightarrow> mark a i d = (r, a') \<Longrightarrow> \<exists>b'. mark b i d = (r, b') \<and> same_cells a' b'"
  "same_cells a b \<Longrightarrow> drain a = (r, a') \<Longrightarrow> \<exists>b'. drain b = (r, b') \<and> same_cells a' b'"
proof (induction a i d and a arbitrary: b r a' and b r a' rule: mark_drain.induct)
  case (1 a i d)
  note sc = "1.prems"(1)
  then have eq: "sd_v b = sd_v a" "sd_p b = sd_p a" by (simp_all add: same_cells_def)
  from "1.prems"(2) show ?case
  proof (cases rule: mark_cases)
    case range
    with sc show ?thesis by (simp add: mark.simps)
  next
    case noop
    with sc eq show ?thesis by (simp add: mark.simps)
  next
    case shift
    with sc eq show ?thesis by (simp add: mark.simps)
  next
    case forbidden
    with sc eq show ?thesis by (simp add: mark.simps same_cells_def fail_leaf_def)
  next
    case (cascade x)
    from eliminate_peers_same [OF assign_same [OF sc] cascade(5)] obtain b'
      where "eliminate_peers (assign b i d) (take 20 (relations i)) d = (Some x, b')"
        "same_cells a' b'" by blast
    with cascade eq show ?thesis by (simp add: mark.simps)
  next
    case (drained a1)
    from eliminate_peers_same [OF assign_same [OF sc] drained(5)] obtain b1
      where b1: "eliminate_peers (assign b i d) (take 20 (relations i)) d = (None, b1)"
        "same_cells a1 b1" by blast
    have "\<not> 81 \<le> i" using drained(1) by simp
    from "1.IH" [OF this drained(2) drained(3) _ drained(5) [symmetric] refl b1(2) drained(6)]
      drained(4)
    obtain b' where "drain b1 = (r, b')" "same_cells a' b'" by auto
    with drained(1-4) b1(1) eq show ?thesis by (simp add: mark.simps)
  qed
next
  case (2 a)
  note sc = "2.prems"(1)
  then have eq: "sd_q b = sd_q a" "sd_q_i b = sd_q_i a" "sd_q_o b = sd_q_o a" "sd_p b = sd_p a"
    by (simp_all add: same_cells_def)
  let ?a1 = "a\<lparr>sd_q_o := sd_q_o a + 1\<rparr>"
  let ?b1 = "b\<lparr>sd_q_o := sd_q_o b + 1\<rparr>"
  let ?i = "unat (sd_q a ! sd_q_o a)"
  have sc1: "same_cells ?a1 ?b1" using sc by (simp add: same_cells_def)
  from "2.prems"(2) show ?case
  proof (cases rule: drain_cases)
    case empty
    with sc eq show ?thesis by (simp add: drain.simps)
  next
    case range
    with sc eq show ?thesis by (simp add: drain.simps)
  next
    case cell
    with sc1 eq show ?thesis by (simp add: drain.simps [of b] Let_def)
  next
    case (failed y)
    have n: "\<not> 81 \<le> sd_q_o a" "\<not> 81 \<le> ?i" using failed by simp_all
    from failed(4) have m: "mark ?a1 ?i (of_nat (ffs (sd_p ?a1 ! ?i))) = (Some y, a')" by simp
    from "2.IH"(1) [OF failed(1) n(1) refl refl n(2) sc1 m] obtain b'
      where "mark ?b1 ?i (of_nat (ffs (sd_p ?a1 ! ?i))) = (Some y, b')" "same_cells a' b'"
      by blast
    with failed(1-3,5) eq show ?thesis by (simp add: drain.simps [of b] Let_def)
  next
    case (continued a2)
    have n: "\<not> 81 \<le> sd_q_o a" "\<not> 81 \<le> ?i" using continued by simp_all
    from continued(4) have m: "mark ?a1 ?i (of_nat (ffs (sd_p ?a1 ! ?i))) = (None, a2)" by simp
    from "2.IH"(1) [OF continued(1) n(1) refl refl n(2) sc1 m] obtain b2
      where b2: "mark ?b1 ?i (of_nat (ffs (sd_p ?a1 ! ?i))) = (None, b2)" "same_cells a2 b2"
      by blast
    from "2.IH"(2) [OF continued(1) n(1) refl refl n(2) m [symmetric] refl b2(2) continued(5)]
    obtain b' where "drain b2 = (r, b')" "same_cells a' b'" by blast
    with continued(1-3) b2(1) eq show ?thesis by (simp add: drain.simps [of b] Let_def)
  qed
qed

lemma search_min_same:
  assumes "same_cells a b"
  shows "search_min a = search_min b"
proof -
  from assms have "sd_v a = sd_v b" "sd_c a = sd_c b" by (simp_all add: same_cells_def)
  then show ?thesis unfolding search_min_def by (simp only:)
qed

text \<open>The integer that \<open>SuDoKu__unique_sol_aux\<close> returns when there are \<open>k\<close> solutions.\<close>

definition count_code :: "nat \<Rightarrow> int" where
  "count_code k = (if k \<le> 1 then int k else - 2)"

text \<open>
  From a grid in which the propagation has come to rest, \<open>SuDoKu__unique_sol_aux\<close>
  returns the code of the number of solutions that \<open>SuDoKu__resolve_aux\<close> lists, whatever
  the workspaces, the tracking flags and the trees of the two runs.
\<close>

lemma unique_resolve:
  "settled s \<Longrightarrow> resolve_aux ws s = (r, s', res) \<Longrightarrow> same_cells s b
     \<Longrightarrow> unique_sol_aux ws2 b = Inr (count_code (length res))"
  "settled s \<Longrightarrow> i < 81 \<Longrightarrow> 0 < d
     \<Longrightarrow> (sd_e s \<longrightarrow> sd_g s = Some (Node (int (sd_n s)) sg))
     \<Longrightarrow> resolve_loop ws s i d sg res = (r, s', res') \<Longrightarrow> same_cells s b
     \<Longrightarrow> length res \<le> 1
     \<Longrightarrow> unique_sol_loop ws2 b i d (int (length res)) = Inr (count_code (length res'))"
proof (induction ws s and ws s i d sg res arbitrary: r s' res b and r s' res' b
    rule: resolve_aux_resolve_loop.induct)
  case (1 ws s)
  note st = "1.prems"(1) and run = "1.prems"(2) and sc = "1.prems"(3)
  from sc have nb: "sd_n b = sd_n s" by (simp add: same_cells_def)
  show ?case
  proof (cases "sd_n s = 81")
    case True
    with run have "res = [get2darray (sd_v s)]" by (auto simp: resolve_aux.simps)
    with True nb show ?thesis by (simp add: unique_sol_aux.simps count_code_def)
  next
    case False
    from settled_n [OF st] have n: "\<not> 81 < sd_n s" by simp
    let ?s0 = "if sd_e s then s\<lparr>sd_g := Some (Node (int (sd_n s)) [])\<rparr> else s"
    from run False n have run': "resolve_loop ws ?s0 (search_min s) 1 [] [] = (r, s', res)"
      by (simp add: resolve_aux.simps)
    have s0: "settled ?s0" using st by simp
    have g0: "sd_e ?s0 \<longrightarrow> sd_g ?s0 = Some (Node (int (sd_n ?s0)) [])" by simp
    have sc0: "same_cells ?s0 b" using sc by (simp add: same_cells_def)
    have one: "0 < (1 :: nat)" by simp
    have len: "length ([] :: int list list list) \<le> 1" by simp
    from "1.IH" [OF False n s0 settled_search_min(1) [OF st False] one g0 run' sc0 len]
    have "unique_sol_loop ws2 b (search_min s) 1 0 = Inr (count_code (length res))" by simp
    with False n nb search_min_same [OF sc] show ?thesis
      by (simp add: unique_sol_aux.simps)
  qed
next
  case (2 ws s i d sg res)
  note st = "2.prems"(1) and i = "2.prems"(2) and d0 = "2.prems"(3) and g = "2.prems"(4)
    and run = "2.prems"(5) and sc = "2.prems"(6) and len = "2.prems"(7)
  let ?c = "copy s (ws (sd_n s))"
  let ?cb = "copy b (ws2 (sd_n b))"
  from sc have pb: "sd_p b = sd_p s" by (simp add: same_cells_def)
  show ?case
  proof (cases "d < 10")
    case False
    with run have "res' = res" by (simp add: resolve_loop.simps)
    with False len show ?thesis by (simp add: unique_sol_loop.simps count_code_def)
  next
    case d: True
    have ni: "\<not> 81 \<le> i" using i by simp
    have d1: "0 < d + 1" by simp
    show ?thesis
    proof (cases "has_digit (sd_p s ! i) (of_nat d)")
      case False
      from run d ni False have run': "resolve_loop ws s i (d + 1) sg res = (r, s', res')"
        by (subst (asm) resolve_loop.simps) simp
      have u: "unique_sol_loop ws2 b i d (int (length res))
          = unique_sol_loop ws2 b i (d + 1) (int (length res))"
        using d ni False pb by (subst unique_sol_loop.simps) simp
      from "2.IH"(6) [OF d ni False st i d1 g run' sc len] u show ?thesis by simp
    next
      case h: True
      obtain x t where m: "mark ?c i (of_nat d) = (x, t)" by (cases "mark ?c i (of_nat d)")
      have "same_cells ?c ?cb" using sc by simp
      from mark_drain_same(1) [OF this m] obtain tb
        where mb: "mark ?cb i (of_nat d) = (x, tb)" and sct: "same_cells t tb" by blast
      have sc': "settled ?c" using st by (simp add: settled_copy_eq)
      note b = digit_ok [OF d0 d]
      note sm = settled_mark [OF sc' i b m]
      have et: "sd_e t = sd_e s" using mark_e [OF m] by simp
      show ?thesis
      proof (cases x)
        case None
        with sm(2) have stt: "settled t" by simp
        obtain xa t' sres where ra: "resolve_aux ws t = (xa, t', sres)"
          by (cases "resolve_aux ws t")
        from resolve_settled(1) [OF stt ra] et
        have p: "xa = None" "sd_e s \<longrightarrow> (\<exists>gr. sd_g t' = Some gr)" by auto
        from "2.IH"(1) [OF d ni h m [symmetric] None stt ra sct]
        have ua: "unique_sol_aux ws2 tb = Inr (count_code (length sres))" .
        have grow: "\<exists>xs. res' = (res @ sres) @ xs"
          if "settled s2" "sd_e s2 \<longrightarrow> sd_g s2 = Some (Node (int (sd_n s2)) sg2)"
            "resolve_loop ws s2 i (d + 1) sg2 (res @ sres) = (r, s', res')" for s2 sg2
          using resolve_settled(2) [OF that(1) i d1 that(2,3)] by blast
        have fin: "unique_sol_loop ws2 b i d (int (length res)) = Inr (count_code (length res'))"
          if more: "\<exists>xs. res' = (res @ sres) @ xs"
            and next_step: "length (res @ sres) \<le> 1 \<Longrightarrow>
              unique_sol_loop ws2 b i (d + 1) (int (length (res @ sres)))
                = Inr (count_code (length res'))"
        proof (cases "length (res @ sres) \<le> 1")
          case True
          then have "\<not> count_code (length sres) < 0"
            "\<not> 1 < int (length res) + count_code (length sres)"
            "int (length res) + count_code (length sres) = int (length (res @ sres))"
            by (simp_all add: count_code_def)
          with d ni h pb mb None ua next_step [OF True] show ?thesis
            by (subst unique_sol_loop.simps) simp
        next
          case False
          with more have big: "count_code (length res') = - 2" by (auto simp: count_code_def)
          from False len have "count_code (length sres) < 0
              \<or> 1 < int (length res) + count_code (length sres)"
            by (auto simp: count_code_def)
          moreover have "count_code (length sres) < 0 \<Longrightarrow> count_code (length sres) = - 2"
            by (auto simp: count_code_def split: if_splits)
          ultimately show ?thesis
            using d ni h pb mb None ua big
            by (subst unique_sol_loop.simps) auto
        qed
        show ?thesis
        proof (cases "sd_e s")
          case True
          with p(2) obtain gr where gr: "sd_g t' = Some gr" by auto
          let ?s2 = "s\<lparr>sd_g := Some (Node (int (sd_n s)) (sg @ [gr]))\<rparr>"
          from run d ni h m None ra p(1) True gr
          have run': "resolve_loop ws ?s2 i (d + 1) (sg @ [gr]) (res @ sres) = (r, s', res')"
            by (subst (asm) resolve_loop.simps) simp
          have s2: "settled ?s2" using st by simp
          have g2: "sd_e ?s2 \<longrightarrow> sd_g ?s2 = Some (Node (int (sd_n ?s2)) (sg @ [gr]))" by simp
          have sc2: "same_cells ?s2 b" using sc by (simp add: same_cells_def)
          show ?thesis
          proof (rule fin)
            show "\<exists>xs. res' = (res @ sres) @ xs" using s2 g2 run' by (rule grow)
            show "unique_sol_loop ws2 b i (d + 1) (int (length (res @ sres)))
                = Inr (count_code (length res'))" if "length (res @ sres) \<le> 1"
              using "2.IH"(2) [OF d ni h m [symmetric] None ra [symmetric] p(1) refl True gr
                s2 i d1 g2 run' sc2 that] .
          qed
        next
          case False
          from run d ni h m None ra p(1) False
          have run': "resolve_loop ws s i (d + 1) sg (res @ sres) = (r, s', res')"
            by (subst (asm) resolve_loop.simps) simp
          show ?thesis
          proof (rule fin)
            show "\<exists>xs. res' = (res @ sres) @ xs" using st g run' by (rule grow)
            show "unique_sol_loop ws2 b i (d + 1) (int (length (res @ sres)))
                = Inr (count_code (length res'))" if "length (res @ sres) \<le> 1"
              using "2.IH"(3) [OF d ni h m [symmetric] None ra [symmetric] p(1) refl False
                st i d1 g run' sc that] .
          qed
        qed
      next
        case (Some e)
        with sm(1) mark_drain_status(1) [of ?c i "of_nat d" e t] m
        have e: "e = Contradiction" by auto
        have u: "unique_sol_loop ws2 b i d (int (length res))
            = unique_sol_loop ws2 b i (d + 1) (int (length res))"
          using d ni h pb mb Some e by (subst unique_sol_loop.simps) simp
        show ?thesis
        proof (cases "sd_e s")
          case True
          from mark_drain_leaf(1) [of ?c i "of_nat d" t] m Some e True
          obtain k where k: "sd_g t = Some (Leaf k CHR ''-'')" by (auto simp: minus_leaf_def)
          let ?l = "Leaf k CHR ''-''"
          let ?s2 = "s\<lparr>sd_g := Some (Node (int (sd_n s)) (sg @ [?l]))\<rparr>"
          from run d ni h m Some e True k
          have run': "resolve_loop ws ?s2 i (d + 1) (sg @ [?l]) res = (r, s', res')"
            by (subst (asm) resolve_loop.simps) simp
          have s2: "settled ?s2" using st by simp
          have g2: "sd_e ?s2 \<longrightarrow> sd_g ?s2 = Some (Node (int (sd_n ?s2)) (sg @ [?l]))" by simp
          have sc2: "same_cells ?s2 b" using sc by (simp add: same_cells_def)
          from "2.IH"(4) [OF d ni h m [symmetric] Some e True k s2 i d1 g2 run' sc2 len] u
          show ?thesis by simp
        next
          case False
          from run d ni h m Some e False
          have run': "resolve_loop ws s i (d + 1) sg res = (r, s', res')"
            by (subst (asm) resolve_loop.simps) simp
          from "2.IH"(5) [OF d ni h m [symmetric] Some e False st i d1 g run' sc len] u
          show ?thesis by simp
        qed
      qed
    qed
  qed
qed

text \<open>
  C1. \<open>SuDoKu__unique_sol\<close> returns 1 exactly when \<open>SuDoKu_resolve\<close>, run on the same
  clues, returns a list of one solution; this holds for every grid and for every content
  of the two workspaces.
\<close>

theorem unique_sol_resolve:
  "fst (unique_sol ws2 s) = Inr 1 \<longleftrightarrow> (\<exists>x. fst (resolve ws s) = Inr [x])"
proof -
  obtain r1 s1 where mc: "mark_clues (reset s) [0..<81] = (r1, s1)"
    by (cases "mark_clues (reset s) [0..<81]")
  show ?thesis
  proof (cases r1)
    case None
    with mc have m: "mark_clues (reset s) [0..<81] = (None, s1)" by simp
    from m obtain s2 res where
      ra: "resolve_aux (if sd_e s then (\<lambda>k. (ws k)\<lparr>sd_g := None\<rparr>) else ws) s1 = (None, s2, res)"
      and rs: "resolve ws s = (Inr res, s2)" and st: "settled s1"
      by (rule resolve_marked)
    from unique_resolve(1) [OF st ra same_cells_refl]
    have "unique_sol_aux ws2 s1 = Inr (count_code (length res))" .
    with m have u: "fst (unique_sol ws2 s) = Inr (count_code (length res))"
      by (simp add: unique_sol_def)
    have "count_code (length res) = 1 \<longleftrightarrow> length res = 1"
      by (simp add: count_code_def)
    also have "\<dots> \<longleftrightarrow> (\<exists>x. res = [x])" by (simp add: length_Suc_conv)
    finally show ?thesis using u rs by simp
  next
    case (Some x)
    with mc have "resolve ws s = (Inl x, s1)" by (simp add: resolve_def Let_def)
    moreover from mc Some have "fst (unique_sol ws2 s) \<noteq> Inr 1"
      by (simp add: unique_sol_def)
    ultimately show ?thesis by simp
  qed
qed

section \<open>A puzzle with one solution\<close>

text \<open>
  Twenty-nine clues. Marking them places 22 more digits; the search then tries the two
  candidates of cell 2: digit 2, which fails, and digit 4, which the propagation
  completes.
\<close>

definition puzzle_string :: string where
  "puzzle_string = ''53..7....6..19.....98....6.8...6...34..8.3..17...2...6.6....28....419..5....8..79''"

definition puzzle_grid :: sudoku where
  "puzzle_grid = snd (from_string empty_grid puzzle_string)"

definition puzzle_solution :: "int list list" where
  "puzzle_solution =
    [[5, 3, 4, 6, 7, 8, 9, 1, 2],
     [6, 7, 2, 1, 9, 5, 3, 4, 8],
     [1, 9, 8, 3, 4, 2, 5, 6, 7],
     [8, 5, 9, 7, 6, 1, 4, 2, 3],
     [4, 2, 6, 8, 5, 3, 7, 9, 1],
     [7, 1, 3, 9, 2, 4, 8, 5, 6],
     [9, 6, 1, 5, 3, 7, 2, 8, 4],
     [2, 8, 7, 4, 1, 9, 6, 3, 5],
     [3, 4, 5, 2, 8, 6, 1, 7, 9]]"

text \<open>The list and the tree of a run of \<open>resolve\<close>, for the examples.\<close>

definition resolve_probe :: "(nat \<Rightarrow> sudoku) \<Rightarrow> sudoku
    \<Rightarrow> (error + int list list list) \<times> graph option" where
  "resolve_probe ws s = (case resolve ws s of (r, s') \<Rightarrow> (r, sd_g s'))"

lemma puzzle_run:
  "resolve_probe workspace puzzle_grid
     = (Inr [puzzle_solution], Some (Node 51 [Leaf 54 CHR ''-'', Leaf 81 CHR ''+'']))"
  by code_simp

lemma puzzle_run_sel:
  "fst (resolve workspace puzzle_grid) = Inr [puzzle_solution]"
  "sd_g (snd (resolve workspace puzzle_grid))
     = Some (Node 51 [Leaf 54 CHR ''-'', Leaf 81 CHR ''+''])"
  using puzzle_run by (simp_all add: resolve_probe_def split: prod.splits)

lemma puzzle_tracked: "sd_e puzzle_grid"
  by code_simp

lemma sevens_clues: "fst (mark_clues (reset clue_sevens) [0..<81]) = Some Contradiction"
  by code_simp

theorem resolve_contradiction_witness:
  "fst (mark_clues (reset puzzle_grid) [0..<81]) = None
   \<and> fst (resolve workspace puzzle_grid) = Inr [puzzle_solution]
   \<and> sd_e puzzle_grid
   \<and> sd_g (snd (resolve workspace puzzle_grid))
       = Some (Node 51 [Leaf 54 CHR ''-'', Leaf 81 CHR ''+''])
   \<and> resolve_fails workspace puzzle_grid = 1
   \<and> fst (mark_clues (reset clue_sevens) [0..<81]) = Some Contradiction
   \<and> fst (resolve workspace clue_sevens) = Inl Contradiction"
proof -
  note t = resolve_contradiction [of workspace puzzle_grid]
  from t puzzle_run_sel(1) have "fst (mark_clues (reset puzzle_grid) [0..<81]) \<noteq> Some e" for e
    by auto
  then have m: "fst (mark_clues (reset puzzle_grid) [0..<81]) = None"
    by (cases "fst (mark_clues (reset puzzle_grid) [0..<81])") auto
  with t puzzle_tracked have "\<exists>gr. sd_g (snd (resolve workspace puzzle_grid)) = Some gr
      \<and> minus_leaves gr = resolve_fails workspace puzzle_grid" by blast
  with puzzle_run_sel(2) have f: "resolve_fails workspace puzzle_grid = 1" by auto
  from resolve_contradiction [of workspace clue_sevens] sevens_clues
  have c: "fst (resolve workspace clue_sevens) = Inl Contradiction" by blast
  from m puzzle_run_sel puzzle_tracked f sevens_clues c show ?thesis by simp
qed

theorem resolve_solutions_witness:
  "fst (resolve workspace puzzle_grid) = Inr [puzzle_solution]
   \<and> puzzle_solution \<in> set [puzzle_solution]
   \<and> complete puzzle_solution \<and> peer_free puzzle_solution
   \<and> agrees (sd_o puzzle_grid) puzzle_solution"
  using resolve_solutions [OF puzzle_run_sel(1), of puzzle_solution] puzzle_run_sel(1) by simp

theorem unique_sol_resolve_witness:
  "fst (resolve workspace puzzle_grid) = Inr [puzzle_solution]
   \<and> fst (unique_sol workspace puzzle_grid) = Inr 1
   \<and> fst (resolve workspace clash_grid) = Inr []
   \<and> fst (unique_sol workspace clash_grid) \<noteq> Inr 1"
proof -
  from unique_sol_resolve [of workspace puzzle_grid workspace] puzzle_run_sel(1)
  have 1: "fst (unique_sol workspace puzzle_grid) = Inr 1" by simp
  from unique_sol_resolve [of workspace clash_grid workspace] clash_run_sel(1)
  have 2: "fst (unique_sol workspace clash_grid) \<noteq> Inr 1" by simp
  from 1 2 puzzle_run_sel(1) clash_run_sel(1) show ?thesis by simp
qed

end
